theory Spec2Isabelle
  imports Complex_Main "HOL-Library.Product_Lexorder"
begin

section \<open>Python values and failures\<close>

text \<open>
  The exceptions the modelled functions can raise. A computation that may raise has the
  type \<open>error + 'a\<close>, with \<open>Inl\<close> for the exception.
\<close>

datatype error = IndexError | ValueError

definition and_then :: "error + 'a \<Rightarrow> ('a \<Rightarrow> error + 'b) \<Rightarrow> error + 'b" where
  "and_then m f = (case m of Inl e \<Rightarrow> Inl e | Inr v \<Rightarrow> f v)"

text \<open>
  Subscription \<open>xs[i]\<close> of a Python list, string or numpy axis: a negative index counts
  from the end, anything outside \<open>-len .. len - 1\<close> raises IndexError.
\<close>

definition py_get :: "'a list \<Rightarrow> int \<Rightarrow> error + 'a" where
  "py_get xs i =
     (if 0 \<le> i \<and> i < int (length xs) then Inr (xs ! nat i)
      else if i < 0 \<and> - int (length xs) \<le> i then Inr (xs ! nat (int (length xs) + i))
      else Inl IndexError)"

text \<open>Item assignment \<open>xs[i] = v\<close>, with the same index rule.\<close>

definition py_set :: "'a list \<Rightarrow> int \<Rightarrow> 'a \<Rightarrow> error + 'a list" where
  "py_set xs i v =
     (if 0 \<le> i \<and> i < int (length xs) then Inr (xs[nat i := v])
      else if i < 0 \<and> - int (length xs) \<le> i then Inr (xs[nat (int (length xs) + i) := v])
      else Inl IndexError)"

text \<open>\<open>range(a, b)\<close> with the default step 1.\<close>

definition py_range :: "int \<Rightarrow> int \<Rightarrow> int list" where
  "py_range a b = [a..b - 1]"

section \<open>structure\_predictor.py\<close>

subsection \<open>Base pairing\<close>

text \<open>
  The dictionary \<open>bp_complement\<close> of \<open>StructurePredictor.__init__\<close>, and \<open>can_pair\<close>, which
  compares \<open>base2\<close> with \<open>bp_complement.get(base1, None)\<close>.
\<close>

definition bp_complement :: "char \<rightharpoonup> char" where
  "bp_complement =
     [CHR ''A'' \<mapsto> CHR ''T'', CHR ''T'' \<mapsto> CHR ''A'', CHR ''G'' \<mapsto> CHR ''C'',
      CHR ''C'' \<mapsto> CHR ''G'', CHR ''U'' \<mapsto> CHR ''A'']"

definition can_pair :: "char \<Rightarrow> char \<Rightarrow> bool" where
  "can_pair base1 base2 = (Some base2 = bp_complement base1)"

subsection \<open>The score matrix\<close>

text \<open>
  \<open>dp\<close> is an \<open>n \<times> n\<close> numpy array of floats. Every value the program stores in it is a
  count of pairs, far below \<open>2^53\<close>, where float arithmetic and comparison are exact; the
  entries are modelled as natural numbers.
\<close>

type_synonym matrix = "nat list list"

definition zeros :: "nat \<Rightarrow> matrix" where
  "zeros n = replicate n (replicate n 0)"

definition dp_get :: "matrix \<Rightarrow> int \<Rightarrow> int \<Rightarrow> error + nat" where
  "dp_get dp i j = and_then (py_get dp i) (\<lambda>row. py_get row j)"

definition dp_set :: "matrix \<Rightarrow> int \<Rightarrow> int \<Rightarrow> nat \<Rightarrow> error + matrix" where
  "dp_set dp i j v =
     and_then (py_get dp i) (\<lambda>row.
     and_then (py_set row j v) (\<lambda>row'.
     py_set dp i row'))"

text \<open>
  The score of pairing \<open>i\<close> with \<open>k\<close> inside \<open>i..j\<close>, lines 38-39 (and again 60-61):
  \<open>1 + (dp[i+1][k-1] if i+1 <= k-1 else 0) + (dp[k+1][j] if k+1 <= j else 0)\<close>.
\<close>

definition pair_score :: "matrix \<Rightarrow> int \<Rightarrow> int \<Rightarrow> int \<Rightarrow> error + nat" where
  "pair_score dp i k j =
     and_then (if i + 1 \<le> k - 1 then dp_get dp (i + 1) (k - 1) else Inr 0) (\<lambda>inner.
     and_then (if k + 1 \<le> j then dp_get dp (k + 1) j else Inr 0) (\<lambda>outer.
     Inr (1 + inner + outer)))"

text \<open>The loop \<open>for k in range(i, j)\<close> of \<open>nussinov_algorithm\<close>, over the remaining values of \<open>k\<close>.\<close>

fun pair_loop :: "string \<Rightarrow> int \<Rightarrow> int \<Rightarrow> int list \<Rightarrow> matrix \<Rightarrow> error + matrix" where
  "pair_loop seq i j [] dp = Inr dp"
| "pair_loop seq i j (k # ks) dp =
     and_then (py_get seq i) (\<lambda>b1.
     and_then (py_get seq k) (\<lambda>b2.
     if can_pair b1 b2 then
       and_then (pair_score dp i k j) (\<lambda>score.
       and_then (dp_get dp i j) (\<lambda>cur.
       and_then (dp_set dp i j (max cur score)) (\<lambda>dp'.
       pair_loop seq i j ks dp')))
     else pair_loop seq i j ks dp))"

text \<open>The loop \<open>for i in range(n - length + 1)\<close>, over the remaining values of \<open>i\<close>.\<close>

fun start_loop :: "string \<Rightarrow> int \<Rightarrow> int list \<Rightarrow> matrix \<Rightarrow> error + matrix" where
  "start_loop seq len [] dp = Inr dp"
| "start_loop seq len (i # is) dp =
     (let j = i + len - 1 in
      and_then (dp_get dp i (j - 1)) (\<lambda>v.
      and_then (dp_set dp i j v) (\<lambda>dp1.
      and_then (pair_loop seq i j (py_range i j) dp1) (\<lambda>dp2.
      start_loop seq len is dp2))))"

text \<open>The loop \<open>for length in range(min_loop + 1, n + 1)\<close>, over the remaining lengths.\<close>

fun length_loop :: "string \<Rightarrow> int list \<Rightarrow> matrix \<Rightarrow> error + matrix" where
  "length_loop seq [] dp = Inr dp"
| "length_loop seq (len # lens) dp =
     and_then (start_loop seq len (py_range 0 (int (length seq) - len + 1)) dp)
       (length_loop seq lens)"

definition nussinov_algorithm :: "string \<Rightarrow> int \<Rightarrow> error + matrix" where
  "nussinov_algorithm seq min_loop =
     (let n = int (length seq) in
      length_loop seq (py_range (min_loop + 1) (n + 1)) (zeros (length seq)))"

subsection \<open>Traceback\<close>

text \<open>
  The loop \<open>for k in range(i, j)\<close> of \<open>traceback_recursive\<close> up to its \<open>return\<close>: the first
  \<open>k\<close>, in ascending order, that can pair with \<open>i\<close> and whose score equals \<open>dp[i][j]\<close>.
  The loop body has no effect for any other \<open>k\<close>; when no \<open>k\<close> is found the loop runs out.
\<close>

fun first_partner :: "string \<Rightarrow> matrix \<Rightarrow> int \<Rightarrow> int \<Rightarrow> int list \<Rightarrow> error + int option" where
  "first_partner seq dp i j [] = Inr None"
| "first_partner seq dp i j (k # ks) =
     and_then (py_get seq i) (\<lambda>b1.
     and_then (py_get seq k) (\<lambda>b2.
     if can_pair b1 b2 then
       and_then (pair_score dp i k j) (\<lambda>score.
       and_then (dp_get dp i j) (\<lambda>cur.
       if cur = score then Inr (Some k) else first_partner seq dp i j ks))
     else first_partner seq dp i j ks))"

lemma and_then_cong [fundef_cong]:
  "m = m' \<Longrightarrow> (\<And>v. m' = Inr v \<Longrightarrow> f v = f' v) \<Longrightarrow> and_then m f = and_then m' f'"
  by (cases m') (simp_all add: and_then_def)

lemma first_partner_range:
  "first_partner seq dp i j ks = Inr (Some k) \<Longrightarrow> k \<in> set ks"
  by (induction ks) (auto simp: and_then_def split: sum.splits if_splits)

text \<open>
  \<open>traceback_recursive\<close> writes into the list \<open>structure\<close> of the enclosing call; the model
  passes the list in and returns it updated.
\<close>

function traceback_recursive :: "string \<Rightarrow> matrix \<Rightarrow> int \<Rightarrow> int \<Rightarrow> string \<Rightarrow> error + string" where
  "traceback_recursive seq dp i j st =
     (if i > j then Inr st
      else
        and_then (dp_get dp i j) (\<lambda>a.
        and_then (dp_get dp i (j - 1)) (\<lambda>b.
        if a = b then traceback_recursive seq dp i (j - 1) st
        else
          and_then (first_partner seq dp i j (py_range i j)) (\<lambda>found.
          case found of
            None \<Rightarrow> Inr st
          | Some k \<Rightarrow>
              and_then (py_set st i (CHR ''('')) (\<lambda>st1.
              and_then (py_set st1 k (CHR '')'')) (\<lambda>st2.
              and_then (traceback_recursive seq dp (i + 1) (k - 1) st2) (\<lambda>st3.
              traceback_recursive seq dp (k + 1) j st3)))))))"
  by pat_completeness auto
termination
proof (relation "measure (\<lambda>(seq, dp, i, j, st). nat (j - i + 1))")
  show "wf (measure (\<lambda>(seq, dp, i, j, st). nat (j - i + 1)))"
    by simp
next
  fix seq :: string and dp :: matrix and i j :: int and st :: string and a b :: nat
  assume "\<not> j < i"
  then show "((seq, dp, i, j - 1, st), (seq, dp, i, j, st))
      \<in> measure (\<lambda>(seq, dp, i, j, st). nat (j - i + 1))"
    by simp
next
  fix seq :: string and dp :: matrix and i j k :: int and st st1 st2 :: string
    and found :: "int option"
  assume "\<not> j < i" and "first_partner seq dp i j (py_range i j) = Inr found"
    and "found = Some k"
  then have "k \<in> set (py_range i j)"
    using first_partner_range by blast
  then show "((seq, dp, i + 1, k - 1, st2), (seq, dp, i, j, st))
      \<in> measure (\<lambda>(seq, dp, i, j, st). nat (j - i + 1))"
    by (simp add: py_range_def)
next
  fix seq :: string and dp :: matrix and i j k :: int and st st1 st2 st3 :: string
    and found :: "int option"
  assume "\<not> j < i" and "first_partner seq dp i j (py_range i j) = Inr found"
    and "found = Some k"
  then have "k \<in> set (py_range i j)"
    using first_partner_range by blast
  then show "((seq, dp, k + 1, j, st3), (seq, dp, i, j, st))
      \<in> measure (\<lambda>(seq, dp, i, j, st). nat (j - i + 1))"
    by (simp add: py_range_def)
qed

text \<open>
  \<open>traceback\<close>: for \<open>i > j\<close> the string \<open>'.' * (j - i + 1)\<close> (a non-positive repeat count gives
  the empty string), otherwise the list of \<open>len(sequence)\<close> dots after the recursive pass.
\<close>

definition traceback :: "string \<Rightarrow> matrix \<Rightarrow> int \<Rightarrow> int \<Rightarrow> error + string" where
  "traceback seq dp i j =
     (if i > j then Inr (replicate (nat (j - i + 1)) (CHR ''.''))
      else traceback_recursive seq dp i j (replicate (length seq) (CHR ''.'')))"

subsection \<open>Prediction\<close>

text \<open>The dictionary returned by \<open>predict_structure\<close>; its keys \<open>structure\<close> and \<open>length\<close> are the fields \<open>structure_str\<close> and \<open>seq_length\<close>.\<close>

record prediction =
  sequence :: string
  structure_str :: string
  base_pairs :: nat
  score_matrix :: matrix
  seq_length :: nat

definition predict_structure :: "string \<Rightarrow> error + prediction" where
  "predict_structure seq =
     and_then (nussinov_algorithm seq 1) (\<lambda>dp.
     and_then (traceback seq dp 0 (int (length seq) - 1)) (\<lambda>dot_bracket.
     and_then (dp_get dp 0 (int (length seq) - 1)) (\<lambda>v.
     Inr \<lparr>sequence = seq, structure_str = dot_bracket, base_pairs = v,
          score_matrix = dp, seq_length = length seq\<rparr>)))"

subsection \<open>Sliding windows\<close>

text \<open>
  \<open>range(start, stop, step)\<close>: a zero step raises ValueError; a positive step counts up
  while the value is below \<open>stop\<close>, a negative one counts down while it is above.
\<close>

function range_up :: "int \<Rightarrow> int \<Rightarrow> int \<Rightarrow> int list" where
  "range_up i stop step = (if 0 < step \<and> i < stop then i # range_up (i + step) stop step else [])"
  by pat_completeness auto
termination
  by (relation "measure (\<lambda>(i, stop, step). nat (stop - i))") auto

function range_down :: "int \<Rightarrow> int \<Rightarrow> int \<Rightarrow> int list" where
  "range_down i stop step = (if step < 0 \<and> stop < i then i # range_down (i + step) stop step else [])"
  by pat_completeness auto
termination
  by (relation "measure (\<lambda>(i, stop, step). nat (i - stop))") auto

definition py_range_step :: "int \<Rightarrow> int \<Rightarrow> int \<Rightarrow> error + int list" where
  "py_range_step start stop step =
     (if step = 0 then Inl ValueError
      else if 0 < step then Inr (range_up start stop step)
      else Inr (range_down start stop step))"

text \<open>
  The slice \<open>xs[a:b]\<close>: a negative bound counts from the end, and both bounds are clamped
  to \<open>0 .. len(xs)\<close>.
\<close>

definition slice_bound :: "nat \<Rightarrow> int \<Rightarrow> nat" where
  "slice_bound n x = (if x < 0 then nat (max 0 (int n + x)) else min n (nat x))"

definition py_slice :: "'a list \<Rightarrow> int \<Rightarrow> int \<Rightarrow> 'a list" where
  "py_slice xs a b =
     (let lo = slice_bound (length xs) a; hi = slice_bound (length xs) b
      in take (hi - lo) (drop lo xs))"

text \<open>
  A window result is the prediction dictionary with the keys \<open>window_start\<close> and
  \<open>window_end\<close> added.
\<close>

record window_prediction = prediction +
  window_start :: int
  window_end :: int

text \<open>The body of the loop of \<open>sliding_window_prediction\<close>, over the remaining starts.\<close>

fun window_loop :: "int \<Rightarrow> string \<Rightarrow> int list \<Rightarrow> window_prediction list \<Rightarrow> error + window_prediction list" where
  "window_loop window_size seq [] results = Inr results"
| "window_loop window_size seq (i # is) results =
     and_then (predict_structure (py_slice seq i (i + window_size))) (\<lambda>pred.
     window_loop window_size seq is
       (results @ [prediction.extend pred
          \<lparr>window_start = i, window_end = i + window_size\<rparr>]))"

text \<open>\<open>window_size\<close> is the attribute \<open>self.window_size\<close> of the predictor.\<close>

definition sliding_window_prediction :: "int \<Rightarrow> string \<Rightarrow> int \<Rightarrow> error + window_prediction list" where
  "sliding_window_prediction window_size seq stride =
     and_then (py_range_step 0 (int (length seq) - window_size) stride) (\<lambda>starts.
     window_loop window_size seq starts [])"

section \<open>knot\_analyzer.py\<close>

text \<open>
  Floats are modelled by real numbers: the properties proved about the analyzer concern which
  comparisons are made and the values \<open>0\<close> and \<open>1\<close>, not rounding.
  A Python list used as a stack (\<open>append\<close>, \<open>pop\<close>) is a list with its top at the head.
\<close>

fun base_pairs_loop :: "(nat \<times> char) list \<Rightarrow> (nat \<times> nat) list \<Rightarrow> nat list \<Rightarrow> (nat \<times> nat) list" where
  "base_pairs_loop [] pairs stack = pairs"
| "base_pairs_loop ((pos, c) # rest) pairs stack =
     (if c = CHR ''('' then base_pairs_loop rest pairs (pos # stack)
      else if c = CHR '')'' \<and> stack \<noteq> [] then
        base_pairs_loop rest (pairs @ [(hd stack, pos)]) (tl stack)
      else base_pairs_loop rest pairs stack)"

definition get_base_pairs :: "string \<Rightarrow> (nat \<times> nat) list" where
  "get_base_pairs st = sort (base_pairs_loop (enumerate 0 st) [] [])"

fun writhe_loop :: "string \<Rightarrow> real \<Rightarrow> nat list \<Rightarrow> real" where
  "writhe_loop [] writhe stack = writhe"
| "writhe_loop (c # rest) writhe stack =
     (if c = CHR ''('' then writhe_loop rest writhe (length stack # stack)
      else if c = CHR '')'' \<and> stack \<noteq> [] then
        (let depth_diff = int (length stack) - 1 - int (hd stack) in
         writhe_loop rest
           (writhe + (if depth_diff \<noteq> 0 then sgn (real_of_int depth_diff) else 0))
           (tl stack))
      else writhe_loop rest writhe stack)"

definition compute_writhe :: "string \<Rightarrow> real" where
  "compute_writhe st = writhe_loop st 0 []"

definition crossing :: "nat \<times> nat \<Rightarrow> nat \<times> nat \<Rightarrow> bool" where
  "crossing p1 p2 =
     (case p1 of (p1_i, p1_j) \<Rightarrow> case p2 of (p2_i, p2_j) \<Rightarrow>
        (p1_i < p2_i \<and> p2_i < p1_j \<and> p1_j < p2_j) \<or> (p2_i < p1_i \<and> p1_i < p2_j \<and> p2_j < p1_j))"

text \<open>The inner loop \<open>for p2_i, p2_j in pairs[i + 1:]\<close> and the outer loop over \<open>pairs\<close>.\<close>

fun crossing_inner :: "nat \<times> nat \<Rightarrow> (nat \<times> nat) list \<Rightarrow> (nat \<times> nat) list \<Rightarrow> (nat \<times> nat) list" where
  "crossing_inner p1 [] crossings = crossings"
| "crossing_inner p1 (p2 # later) crossings =
     crossing_inner p1 later
       (if crossing p1 p2 then crossings @ [(min (fst p1) (fst p2), max (fst p1) (fst p2))]
        else crossings)"

fun crossing_outer :: "(nat \<times> nat) list \<Rightarrow> (nat \<times> nat) list \<Rightarrow> (nat \<times> nat) list" where
  "crossing_outer [] crossings = crossings"
| "crossing_outer (p1 # later) crossings = crossing_outer later (crossing_inner p1 later crossings)"

definition identify_crossing_patterns :: "string \<Rightarrow> (nat \<times> nat) list" where
  "identify_crossing_patterns st = crossing_outer (get_base_pairs st) []"

text \<open>The loop of \<open>_calc_nesting_complexity\<close> with its four variables; it yields \<open>(max_depth, changes)\<close>.\<close>

fun nesting_loop :: "string \<Rightarrow> int \<Rightarrow> int \<Rightarrow> nat \<Rightarrow> int \<Rightarrow> int \<times> nat" where
  "nesting_loop [] depth max_depth changes prev = (max_depth, changes)"
| "nesting_loop (c # rest) depth max_depth changes prev =
     (let depth' = depth + (if c = CHR ''('' then 1 else if c = CHR '')'' then - 1 else 0)
      in nesting_loop rest depth' (max max_depth depth')
           (changes + (if depth' \<noteq> prev then 1 else 0)) depth')"

definition calc_nesting_complexity :: "string \<Rightarrow> real" where
  "calc_nesting_complexity st =
     (if st = [] then 0
      else
        (case nesting_loop st 0 0 0 0 of (max_depth, changes) \<Rightarrow>
           let nesting = min (real_of_int max_depth / 10) 1;
               transitions = min (real changes / real (length st)) 1
           in nesting * 0.6 + transitions * 0.4))"

datatype risk = LOW | MEDIUM | HIGH | CRITICAL

record knot_record =
  writhe :: real
  crossing_count :: nat
  crossing_positions :: "(nat \<times> nat) list"
  linking_number :: real
  knot_prone :: bool
  complexity_score :: real
  risk_level :: risk

text \<open>The attributes of a \<open>KnotAnalyzer\<close>, and the analyzer built from config.py.\<close>

record knot_analyzer =
  writhe_threshold :: real
  crossing_threshold :: int

definition WRITHE_THRESHOLD :: real where
  "WRITHE_THRESHOLD = 8.0"

definition CROSSING_NUMBER_THRESHOLD :: int where
  "CROSSING_NUMBER_THRESHOLD = 2"

definition default_analyzer :: knot_analyzer where
  "default_analyzer =
     \<lparr>writhe_threshold = WRITHE_THRESHOLD, crossing_threshold = CROSSING_NUMBER_THRESHOLD\<rparr>"

text \<open>\<open>max(x, *xs)\<close> and \<open>max([x] + xs)\<close>: the maximum of a non-empty collection.\<close>

definition max_of :: "int \<Rightarrow> int list \<Rightarrow> int" where
  "max_of x xs = fold max xs x"

text \<open>The expression of line 65 of \<open>detect_knots\<close>.\<close>

definition nesting_signal :: "string \<Rightarrow> (nat \<times> nat) list \<Rightarrow> int" where
  "nesting_signal st pairs =
     (if pairs \<noteq> [] then
        max_of 0 (map (\<lambda>k. max 0 (max_of 0 (map (\<lambda>(i, j). if i < k \<and> k < j then 1 else 0) pairs)))
                   [0..<length st])
      else 0)"

text \<open>The conditional expression of line 80 and the test of line 78.\<close>

definition risk_tier :: "real \<Rightarrow> risk" where
  "risk_tier complexity =
     (if complexity < 0.1 then LOW else if complexity < 0.2 then MEDIUM
      else if complexity < 0.3 then HIGH else CRITICAL)"

definition knot_prone_test :: "knot_analyzer \<Rightarrow> real \<Rightarrow> nat \<Rightarrow> bool" where
  "knot_prone_test self w n_crossings =
     (\<bar>w\<bar> \<ge> writhe_threshold self \<or> int n_crossings \<ge> crossing_threshold self)"

definition detect_knots :: "knot_analyzer \<Rightarrow> string \<Rightarrow> knot_record" where
  "detect_knots self st =
     (let w = compute_writhe st;
          crossings = identify_crossing_patterns st;
          pairs = get_base_pairs st;
          nesting = nesting_signal st pairs;
          linking = real_of_int nesting + w;
          complexity =
            min (\<bar>w\<bar> / 2.0) 1.0 * 0.3 +
            min (real (length crossings) / 3.0) 1.0 * 0.3 +
            min (\<bar>linking\<bar> / 5.0) 1.0 * 0.2 +
            calc_nesting_complexity st * 0.2
      in \<lparr>writhe = w, crossing_count = length crossings,
          crossing_positions = crossings, linking_number = linking,
          knot_prone = knot_prone_test self w (length crossings),
          complexity_score = min complexity 1.0,
          risk_level = risk_tier complexity\<rparr>)"

subsection \<open>Summary\<close>

text \<open>
  \<open>np.mean\<close> of an empty list is \<open>nan\<close> (with a warning, not an exception); the builtin
  \<open>max\<close> of an empty list raises ValueError.
\<close>

datatype np_float = Finite real | NaN

definition np_mean :: "real list \<Rightarrow> np_float" where
  "np_mean xs = (if xs = [] then NaN else Finite (sum_list xs / real (length xs)))"

definition py_max :: "real list \<Rightarrow> error + real" where
  "py_max xs = (case xs of [] \<Rightarrow> Inl ValueError | x # rest \<Rightarrow> Inr (fold max rest x))"

record 'r summary =
  total_windows_analyzed :: nat
  high_risk_windows :: nat
  average_complexity :: np_float
  max_complexity :: real
  high_risk_regions :: "'r list"
  risk_distribution :: "risk \<Rightarrow> nat"

text \<open>
  The values of the dictionary are evaluated in the order written: both lengths, the mean,
  the maximum, then the four counts. The records are dictionaries with at least the keys of
  a \<open>knot_record\<close>.
\<close>

definition summarize_knot_regions ::
  "'a knot_record_scheme list \<Rightarrow> error + ('a knot_record_scheme) summary" where
  "summarize_knot_regions window_results =
     (let high_risk = filter (\<lambda>r. risk_level r \<in> set [HIGH, CRITICAL]) window_results;
          average = np_mean (map complexity_score window_results)
      in and_then (py_max (map complexity_score window_results)) (\<lambda>mx.
         Inr \<lparr>total_windows_analyzed = length window_results,
              high_risk_windows = length high_risk,
              average_complexity = average,
              max_complexity = mx,
              high_risk_regions = high_risk,
              risk_distribution = (\<lambda>level. length (filter (\<lambda>r. risk_level r = level) window_results))\<rparr>))"

section \<open>Notions used to state and prove the properties\<close>

text \<open>
  None of the following is part of the program: these are the invariants of its loops, the
  shape of the strings the traceback writes, and the notions of the specification the
  properties are compared with.
\<close>

text \<open>
  The invariant of the stack parse of \<open>_get_base_pairs\<close> when it reaches position \<open>pos\<close>.
\<close>

definition parse_inv :: "nat \<Rightarrow> (nat \<times> nat) list \<Rightarrow> nat list \<Rightarrow> bool" where
  "parse_inv pos pairs stack \<longleftrightarrow>
     (\<forall>s \<in> set stack. s < pos) \<and> sorted_wrt (>) stack \<and>
     (\<forall>(a, b) \<in> set pairs. a < b \<and> b < pos) \<and>
     (\<forall>(a, b) \<in> set pairs. \<forall>s \<in> set stack. s < a \<or> b < s) \<and>
     (\<forall>p \<in> set pairs. \<forall>q \<in> set pairs. \<not> crossing p q)"

text \<open>
  Reads and writes of the loops stay inside the \<open>n \<times> n\<close> array, so no IndexError occurs;
  \<open>cell\<close> and \<open>upd\<close> are the read and the write at indices known to be in range.
\<close>

definition square :: "nat \<Rightarrow> matrix \<Rightarrow> bool" where
  "square n dp \<longleftrightarrow> length dp = n \<and> (\<forall>row \<in> set dp. length row = n)"

definition in_range :: "nat \<Rightarrow> int \<Rightarrow> bool" where
  "in_range n i \<longleftrightarrow> 0 \<le> i \<and> i < int n"

definition cell :: "matrix \<Rightarrow> int \<Rightarrow> int \<Rightarrow> nat" where
  "cell dp i j = dp ! nat i ! nat j"

definition upd :: "matrix \<Rightarrow> int \<Rightarrow> int \<Rightarrow> nat \<Rightarrow> matrix" where
  "upd dp i j v = dp[nat i := (dp ! nat i)[nat j := v]]"

text \<open>
  The score of lines 38-39 and the running maximum of the loop over \<open>k\<close>, read from cells
  in range.
\<close>

definition score :: "matrix \<Rightarrow> int \<Rightarrow> int \<Rightarrow> int \<Rightarrow> nat" where
  "score dp i k j =
     1 + (if i + 1 \<le> k - 1 then cell dp (i + 1) (k - 1) else 0)
       + (if k + 1 \<le> j then cell dp (k + 1) j else 0)"

fun best :: "string \<Rightarrow> matrix \<Rightarrow> int \<Rightarrow> int \<Rightarrow> int list \<Rightarrow> nat \<Rightarrow> nat" where
  "best seq dp i j [] cur = cur"
| "best seq dp i j (k # ks) cur =
     best seq dp i j ks
       (if can_pair (seq ! nat i) (seq ! nat k) then max cur (score dp i k j) else cur)"

text \<open>
  The value the loops store in \<open>dp[i][j]\<close>: the maximum of \<open>dp[i][j - 1]\<close> and the scores of
  the partners \<open>k\<close> of \<open>i\<close> in \<open>range(i, j)\<close>.
\<close>

definition value_of :: "string \<Rightarrow> matrix \<Rightarrow> int \<Rightarrow> int \<Rightarrow> nat" where
  "value_of seq dp i j = best seq dp i j (py_range i j) (cell dp i (j - 1))"

text \<open>
  The cells already written when the loops are at length \<open>L\<close> and start \<open>s\<close>, and the
  invariant of the loops: a written cell holds its value, any other cell holds 0.
\<close>

definition filled :: "int \<Rightarrow> int \<Rightarrow> int \<Rightarrow> int \<Rightarrow> bool" where
  "filled L s i j \<longleftrightarrow> i < j \<and> (j - i + 1 < L \<or> (j - i + 1 = L \<and> i < s))"

definition fill_inv :: "string \<Rightarrow> nat \<Rightarrow> int \<Rightarrow> int \<Rightarrow> matrix \<Rightarrow> bool" where
  "fill_inv seq n L s dp \<longleftrightarrow>
     square n dp \<and>
     (\<forall>i j. in_range n i \<longrightarrow> in_range n j \<longrightarrow>
        cell dp i j = (if filled L s i j then value_of seq dp i j else 0))"

text \<open>What \<open>nussinov_algorithm\<close> returns: every cell \<open>i < j\<close> holds its value, every other cell 0.\<close>

definition good :: "string \<Rightarrow> matrix \<Rightarrow> bool" where
  "good seq dp \<longleftrightarrow>
     square (length seq) dp \<and>
     (\<forall>i j. in_range (length seq) i \<longrightarrow> in_range (length seq) j \<longrightarrow>
        cell dp i j = (if i < j then value_of seq dp i j else 0))"

text \<open>The characters of \<open>st\<close> at the positions \<open>i..j\<close>.\<close>

definition seg :: "string \<Rightarrow> int \<Rightarrow> int \<Rightarrow> string" where
  "seg st i j = map (\<lambda>p. st ! nat p) [i..j]"

text \<open>Dot-bracket strings built like the traceback builds them.\<close>

inductive nested :: "string \<Rightarrow> bool" where
  nested_empty: "nested []"
| nested_dot: "nested w \<Longrightarrow> nested (w @ [CHR ''.''])"
| nested_pair: "nested u \<Longrightarrow> nested v \<Longrightarrow> nested (CHR ''('' # u @ CHR '')'' # v)"

text \<open>
  What a call \<open>traceback_recursive(i, j)\<close> leaves behind: the list keeps its length and its
  characters outside \<open>i..j\<close>; inside it is a nested string with \<open>dp[i][j]\<close> opening brackets.
\<close>

definition traced :: "matrix \<Rightarrow> string \<Rightarrow> int \<Rightarrow> int \<Rightarrow> string \<Rightarrow> bool" where
  "traced dp st i j st' \<longleftrightarrow>
     length st' = length st \<and>
     (\<forall>p. 0 \<le> p \<and> (p < i \<or> j < p) \<longrightarrow> st' ! nat p = st ! nat p) \<and>
     nested (seg st' i j) \<and>
     count_list (seg st' i j) (CHR ''('') = (if i \<le> j then cell dp i j else 0)"

text \<open>
  The stack-based parse of a dot-bracket string, as the specification describes it: an
  opening bracket is pushed, a closing bracket pops its partner and fails on an empty
  stack, and at the end no bracket may be left open.
\<close>

fun stack_parse :: "(nat \<times> char) list \<Rightarrow> nat list \<Rightarrow> bool" where
  "stack_parse [] stack = (stack = [])"
| "stack_parse ((pos, c) # rest) stack =
     (if c = CHR ''('' then stack_parse rest (pos # stack)
      else if c = CHR '')'' then (case stack of [] \<Rightarrow> False | opened # below \<Rightarrow> stack_parse rest below)
      else stack_parse rest stack)"

definition resolves :: "string \<Rightarrow> bool" where
  "resolves st = stack_parse (enumerate 0 st) []"

text \<open>
  The specification's reading of \<open>matrix[i][j]\<close>: the largest number of pairs of a properly
  nested pairing of the positions \<open>i..j\<close>. A pairing is a list of pairs \<open>(a, b)\<close> with
  \<open>i \<le> a < b \<le> j\<close> whose bases the table allows to pair (\<open>can_pair(seq[a], seq[b])\<close>), no
  position used twice, no two pairs crossing.
\<close>

definition nested_pairing :: "string \<Rightarrow> nat \<Rightarrow> nat \<Rightarrow> (nat \<times> nat) list \<Rightarrow> bool" where
  "nested_pairing seq i j ps \<longleftrightarrow>
     list_all (\<lambda>(a, b). i \<le> a \<and> a < b \<and> b \<le> j \<and> b < length seq \<and>
        can_pair (seq ! a) (seq ! b)) ps \<and>
     distinct (map fst ps @ map snd ps) \<and>
     list_all (\<lambda>p. list_all (\<lambda>q. \<not> crossing p q) ps) ps"

section \<open>Properties of the predictor on concrete sequences\<close>

text \<open>
  C1. The worked example. The docstring of \<open>nussinov_algorithm\<close> promises
  \<open>dp[i][j] = max base pairs in seq[i:j+1]\<close>, and the specification expects \<open>(((())))\<close> with four
  pairs and \<open>matrix[0][7] = 4\<close> for \<open>GGGGCCCC\<close>. The loop \<open>for k in range(i, j)\<close> pairs
  position \<open>i\<close> with some \<open>k < j\<close> only, so the last position of a range is never paired:
  the program returns \<open>((..).).\<close>, two pairs, and \<open>matrix[0][7] = 2\<close>.
\<close>

theorem worked_example_GGGGCCCC:
  "map_sum id (\<lambda>r. (structure_str r, base_pairs r, dp_get (score_matrix r) 0 7))
     (predict_structure ''GGGGCCCC'') = Inr (''((..).).'', 2, Inr 2)"
  by code_simp

text \<open>
  C3. Sequences of length 0 or 1. \<open>traceback\<close> handles the empty range (\<open>i > j\<close>), but
  \<open>predict_structure\<close> then reads \<open>dp[0][len(sequence) - 1]\<close> of a \<open>0 \<times> 0\<close> array: the empty
  sequence raises IndexError. A sequence of length 1 gives one dot and no pair.
\<close>

theorem predict_structure_short:
  "predict_structure [] = Inl IndexError \<and>
   predict_structure [c] =
     Inr \<lparr>sequence = [c], structure_str = ''.'', base_pairs = 0,
          score_matrix = [[0]], seq_length = 1\<rparr>"
  by (simp add: predict_structure_def nussinov_algorithm_def py_range_def zeros_def
      traceback_def and_then_def dp_get_def py_get_def)

section \<open>Properties of the knot analyzer\<close>

subsection \<open>Writhe\<close>

text \<open>
  \<open>compute_writhe\<close> pushes the current stack length, so the stack always holds
  \<open>0, 1, \<dots>, len - 1\<close> from bottom to top, whatever the string is.
\<close>

lemma writhe_loop_keeps:
  "stack = rev [0..<length stack] \<Longrightarrow> writhe_loop st w stack = w"
proof (induction st arbitrary: stack)
  case Nil
  then show ?case by simp
next
  case (Cons c st)
  have push: "length stack # stack = rev [0..<length (length stack # stack)]"
    using Cons.prems by simp
  have same: "writhe_loop st w stack = w"
    using Cons.IH [OF Cons.prems] .
  show ?case
  proof (cases stack)
    case Nil
    then show ?thesis using Cons.IH [OF push] same by simp
  next
    case (Cons top rest)
    obtain m where m: "length stack = Suc m" using Cons by simp
    have st: "stack = m # rev [0..<m]"
      using Cons.prems m by simp
    have pop: "tl stack = rev [0..<length (tl stack)]"
      using st by simp
    have hd: "int (length stack) - 1 - int (hd stack) = 0"
      using st m by simp
    show ?thesis
      using Cons.IH [OF push] Cons.IH [OF pop] same hd by (simp add: Let_def)
  qed
qed

lemma compute_writhe_always_zero: "compute_writhe st = 0"
  by (simp add: compute_writhe_def writhe_loop_keeps)

text \<open>
  C10. Every \<open>)\<close> pops the rank \<open>len(stack) - 1\<close>, so every depth difference is zero and
  \<open>compute_writhe\<close> returns 0: for every string, hence for every balanced, properly nested
  structure and every structure the predictor returns. The writhe criterion of
  \<open>knot_prone\<close>, \<open>abs(writhe) >= 8.0\<close> with the threshold of config.py, therefore never holds.
\<close>

theorem writhe_zero:
  "compute_writhe st = 0 \<and> writhe (detect_knots self st) = 0 \<and>
   \<not> \<bar>writhe (detect_knots default_analyzer st)\<bar> \<ge> writhe_threshold default_analyzer"
  by (simp add: detect_knots_def Let_def compute_writhe_always_zero default_analyzer_def
      WRITHE_THRESHOLD_def)

subsection \<open>The flag and the tier of \<open>detect_knots\<close>\<close>

text \<open>
  C9. \<open>knot_prone\<close> is true exactly when \<open>|writhe|\<close> reaches the writhe threshold or the
  number of crossings reaches the crossing threshold. With the thresholds 8.0 and 2 of
  config.py the test holds for writhe 8.0 with no crossing and for writhe 0 with two
  crossings, and fails for writhe 7.9 with one crossing.
\<close>

theorem knot_prone_rule:
  "(knot_prone (detect_knots self st) \<longleftrightarrow>
      \<bar>writhe (detect_knots self st)\<bar> \<ge> writhe_threshold self \<or>
      int (crossing_count (detect_knots self st)) \<ge> crossing_threshold self) \<and>
   knot_prone_test default_analyzer 8.0 0 \<and>
   knot_prone_test default_analyzer 0 2 \<and>
   \<not> knot_prone_test default_analyzer 7.9 1"
  by (simp add: detect_knots_def Let_def knot_prone_test_def default_analyzer_def
      WRITHE_THRESHOLD_def CROSSING_NUMBER_THRESHOLD_def)

text \<open>
  C8. The tiers are cut at 0.1, 0.2 and 0.3 with strict upper bounds. The tier is computed
  from the unclamped \<open>complexity\<close>, the reported \<open>complexity_score\<close> is \<open>min(complexity, 1.0)\<close>;
  the cuts lie below 1, so the tier is a function of the reported score: LOW below 0.1,
  MEDIUM in \<open>[0.1, 0.2)\<close>, HIGH in \<open>[0.2, 0.3)\<close>, CRITICAL from 0.3 on, and a score equal to a
  cut falls into the tier above it.
\<close>

theorem risk_thresholds:
  "(risk_level (detect_knots self st) = LOW \<longleftrightarrow> complexity_score (detect_knots self st) < 0.1) \<and>
   (risk_level (detect_knots self st) = MEDIUM \<longleftrightarrow>
      0.1 \<le> complexity_score (detect_knots self st) \<and> complexity_score (detect_knots self st) < 0.2) \<and>
   (risk_level (detect_knots self st) = HIGH \<longleftrightarrow>
      0.2 \<le> complexity_score (detect_knots self st) \<and> complexity_score (detect_knots self st) < 0.3) \<and>
   (risk_level (detect_knots self st) = CRITICAL \<longleftrightarrow> 0.3 \<le> complexity_score (detect_knots self st)) \<and>
   risk_tier 0.1 = MEDIUM \<and> risk_tier 0.2 = HIGH \<and> risk_tier 0.3 = CRITICAL"
  by (simp add: detect_knots_def Let_def risk_tier_def min_def)

subsection \<open>Summary of no records\<close>

text \<open>
  C6. For an empty list \<open>np.mean\<close> yields \<open>nan\<close>, but \<open>max\<close> of the empty list then raises
  ValueError, so no summary is returned. Whenever a summary is returned the list was not
  empty and \<open>average_complexity\<close> is the arithmetic mean of the scores, never \<open>nan\<close>.
\<close>

theorem summarize_empty:
  "summarize_knot_regions [] = Inl ValueError \<and>
   (\<forall>rs s. summarize_knot_regions rs = Inr s \<longrightarrow>
      rs \<noteq> [] \<and>
      average_complexity s = Finite (sum_list (map complexity_score rs) / real (length rs)))"
  by (auto simp: summarize_knot_regions_def py_max_def np_mean_def and_then_def Let_def
      split: list.splits)

theorem summarize_empty_witness:
  "\<exists>s. summarize_knot_regions [detect_knots default_analyzer ''(.)''] = Inr s \<and>
     average_complexity s \<noteq> NaN"
proof -
  have "\<exists>s. summarize_knot_regions [detect_knots default_analyzer ''(.)''] = Inr s"
    by (simp add: summarize_knot_regions_def py_max_def and_then_def Let_def)
  then obtain s where s: "summarize_knot_regions [detect_knots default_analyzer ''(.)''] = Inr s"
    by blast
  from summarize_empty s have "average_complexity s \<noteq> NaN" by fastforce
  with s show ?thesis by blast
qed

subsection \<open>Crossings\<close>

text \<open>
  The pairs of \<open>_get_base_pairs\<close> come from a stack parse: a pair closes the most recent
  open bracket, so no two of them interleave, whatever the string is. The invariant of
  the parse at position \<open>pos\<close>: the stack is strictly decreasing from its top, every
  pair lies before \<open>pos\<close>, no open position lies inside a pair, no two pairs cross.
\<close>

lemma crossing_inner_none:
  "\<forall>p2 \<in> set later. \<not> crossing p1 p2 \<Longrightarrow> crossing_inner p1 later acc = acc"
  by (induction later arbitrary: acc) simp_all

lemma crossing_outer_none:
  "\<forall>p1 \<in> set ps. \<forall>p2 \<in> set ps. \<not> crossing p1 p2 \<Longrightarrow> crossing_outer ps acc = acc"
  by (induction ps arbitrary: acc) (simp_all add: crossing_inner_none)

lemma parse_inv_push:
  "parse_inv pos pairs stack \<Longrightarrow> parse_inv (Suc pos) pairs (pos # stack)"
  unfolding parse_inv_def by (fastforce simp: less_Suc_eq)

lemma parse_inv_skip:
  "parse_inv pos pairs stack \<Longrightarrow> parse_inv (Suc pos) pairs stack"
  unfolding parse_inv_def by (fastforce simp: less_Suc_eq)

lemma parse_inv_pop:
  assumes "parse_inv pos pairs (t # rest)"
  shows "parse_inv (Suc pos) (pairs @ [(t, pos)]) rest"
proof -
  from assms have a1: "\<forall>s \<in> set rest. s < pos" and a1': "t < pos"
    and a2: "sorted_wrt (>) rest" and a2': "\<forall>s \<in> set rest. s < t"
    and a3: "\<forall>(a, b) \<in> set pairs. a < b \<and> b < pos"
    and a4: "\<forall>(a, b) \<in> set pairs. \<forall>s \<in> set (t # rest). s < a \<or> b < s"
    and a5: "\<forall>p \<in> set pairs. \<forall>q \<in> set pairs. \<not> crossing p q"
    unfolding parse_inv_def by auto
  have b1: "\<forall>s \<in> set rest. s < Suc pos" using a1 by auto
  have b3: "\<forall>(a, b) \<in> set (pairs @ [(t, pos)]). a < b \<and> b < Suc pos"
    using a3 a1' by auto
  have b4: "\<forall>(a, b) \<in> set (pairs @ [(t, pos)]). \<forall>s \<in> set rest. s < a \<or> b < s"
    using a4 a2' by auto
  have c1: "\<not> crossing (t, pos) (a, b)" and c2: "\<not> crossing (a, b) (t, pos)"
    if "(a, b) \<in> set pairs" for a b
  proof -
    from that a3 have "a < b" "b < pos" by auto
    moreover from that a4 have "t < a \<or> b < t" by auto
    ultimately show "\<not> crossing (t, pos) (a, b)" "\<not> crossing (a, b) (t, pos)"
      by (auto simp: crossing_def)
  qed
  have c3: "\<not> crossing (t, pos) (t, pos)" by (simp add: crossing_def)
  have b5: "\<forall>p \<in> set (pairs @ [(t, pos)]). \<forall>q \<in> set (pairs @ [(t, pos)]). \<not> crossing p q"
    using a5 c1 c2 c3 by auto
  show ?thesis unfolding parse_inv_def using b1 a2 b3 b4 b5 by blast
qed

lemma base_pairs_loop_no_crossing:
  "parse_inv pos pairs stack \<Longrightarrow>
   \<forall>p \<in> set (base_pairs_loop (enumerate pos st) pairs stack).
   \<forall>q \<in> set (base_pairs_loop (enumerate pos st) pairs stack). \<not> crossing p q"
proof (induction st arbitrary: pos pairs stack)
  case Nil
  then show ?case by (simp add: parse_inv_def)
next
  case (Cons c st)
  show ?case
  proof (cases "c = CHR ''(''")
    case True
    then show ?thesis using Cons.IH [OF parse_inv_push [OF Cons.prems]] by simp
  next
    case False
    show ?thesis
    proof (cases "c = CHR '')'' \<and> stack \<noteq> []")
      case True
      then obtain t rest where st: "stack = t # rest" by (cases stack) auto
      from Cons.prems st have "parse_inv (Suc pos) (pairs @ [(t, pos)]) rest"
        using parse_inv_pop by blast
      from Cons.IH [OF this] show ?thesis using True False st by simp
    next
      case no: False
      then show ?thesis using False Cons.IH [OF parse_inv_skip [OF Cons.prems]] by auto
    qed
  qed
qed

lemma get_base_pairs_no_crossing:
  "\<forall>p \<in> set (get_base_pairs st). \<forall>q \<in> set (get_base_pairs st). \<not> crossing p q"
proof -
  have "parse_inv 0 [] []" by (simp add: parse_inv_def)
  from base_pairs_loop_no_crossing [OF this, of st] show ?thesis
    by (simp add: get_base_pairs_def)
qed

lemma base_pairs_loop_ordered:
  "parse_inv pos pairs stack \<Longrightarrow>
   \<forall>(a, b) \<in> set (base_pairs_loop (enumerate pos st) pairs stack). a < b"
proof (induction st arbitrary: pos pairs stack)
  case Nil
  then show ?case by (auto simp: parse_inv_def)
next
  case (Cons c st)
  show ?case
  proof (cases "c = CHR ''(''")
    case True
    then show ?thesis using Cons.IH [OF parse_inv_push [OF Cons.prems]] by simp
  next
    case False
    show ?thesis
    proof (cases "c = CHR '')'' \<and> stack \<noteq> []")
      case True
      then obtain t rest where st: "stack = t # rest" by (cases stack) auto
      from Cons.prems st have "parse_inv (Suc pos) (pairs @ [(t, pos)]) rest"
        using parse_inv_pop by blast
      from Cons.IH [OF this] show ?thesis using True False st by simp
    next
      case no: False
      then show ?thesis using False Cons.IH [OF parse_inv_skip [OF Cons.prems]] by auto
    qed
  qed
qed

lemma get_base_pairs_ordered: "\<forall>(a, b) \<in> set (get_base_pairs st). a < b"
proof -
  have "parse_inv 0 [] []" by (simp add: parse_inv_def)
  from base_pairs_loop_ordered [OF this, of st] show ?thesis
    by (simp add: get_base_pairs_def)
qed

lemma get_base_pairs_nested:
  "list_all (\<lambda>(a, b). a < b) (get_base_pairs st) \<and>
   list_all (\<lambda>p. list_all (\<lambda>q. \<not> crossing p q) (get_base_pairs st)) (get_base_pairs st)"
  using get_base_pairs_ordered [of st] get_base_pairs_no_crossing [of st]
  by (simp add: list_all_iff)

lemma identify_crossing_patterns_empty: "identify_crossing_patterns st = []"
  by (simp add: identify_crossing_patterns_def crossing_outer_none get_base_pairs_no_crossing)

section \<open>The score matrix after \<open>nussinov_algorithm\<close>\<close>

text \<open>
  The three loops never leave the array, and they establish \<open>good\<close>: the cell \<open>(i, j)\<close> is
  written once, from cells of shorter ranges that are final by then.
\<close>

lemma and_then_Inr [simp]: "and_then (Inr v) f = f v"
  by (simp add: and_then_def)

lemma and_then_Inl [simp]: "and_then (Inl e) f = Inl e"
  by (simp add: and_then_def)

lemma py_get_in: "in_range (length xs) i \<Longrightarrow> py_get xs i = Inr (xs ! nat i)"
  by (simp add: py_get_def in_range_def)

lemma py_set_in: "in_range (length xs) i \<Longrightarrow> py_set xs i v = Inr (xs[nat i := v])"
  by (simp add: py_set_def in_range_def)

lemma in_range_nat: "in_range n i \<Longrightarrow> nat i < n"
  by (auto simp: in_range_def)

lemma square_row: "square n dp \<Longrightarrow> in_range n i \<Longrightarrow> length (dp ! nat i) = n"
  using in_range_nat [of n i] by (simp add: square_def)

lemma dp_get_in:
  "square n dp \<Longrightarrow> in_range n i \<Longrightarrow> in_range n j \<Longrightarrow> dp_get dp i j = Inr (cell dp i j)"
  using square_row [of n dp i]
  by (simp add: dp_get_def cell_def py_get_in square_def)

lemma dp_set_in:
  "square n dp \<Longrightarrow> in_range n i \<Longrightarrow> in_range n j \<Longrightarrow> dp_set dp i j v = Inr (upd dp i j v)"
  using square_row [of n dp i]
  by (simp add: dp_set_def upd_def py_get_in py_set_in square_def)

lemma square_upd:
  assumes "square n dp" and "in_range n i"
  shows "square n (upd dp i j v)"
proof -
  have len: "length (upd dp i j v) = n"
    using assms(1) by (simp add: upd_def square_def)
  have "length row = n" if "row \<in> set (upd dp i j v)" for row
  proof -
    have "set (upd dp i j v) \<subseteq> insert ((dp ! nat i)[nat j := v]) (set dp)"
      unfolding upd_def by (rule set_update_subset_insert)
    with that have "row = (dp ! nat i)[nat j := v] \<or> row \<in> set dp"
      by auto
    then show ?thesis
    proof
      assume "row = (dp ! nat i)[nat j := v]"
      then show ?thesis using square_row [OF assms] by simp
    next
      assume "row \<in> set dp"
      then show ?thesis using assms(1) by (simp add: square_def)
    qed
  qed
  with len show ?thesis by (simp add: square_def)
qed

lemma cell_upd:
  assumes "square n dp" and "in_range n i" and "in_range n j"
    and "in_range n a" and "in_range n b"
  shows "cell (upd dp i j v) a b = (if a = i \<and> b = j then v else cell dp a b)"
proof -
  have li: "nat i < length dp" and la: "nat a < length dp"
    using assms(1) in_range_nat [OF assms(2)] in_range_nat [OF assms(4)]
    by (simp_all add: square_def)
  have lj: "nat j < length (dp ! nat i)"
    using square_row [OF assms(1,2)] in_range_nat [OF assms(3)] by simp
  have ai: "nat a = nat i \<longleftrightarrow> a = i" and bj: "nat b = nat j \<longleftrightarrow> b = j"
    using assms(2-5) by (auto simp: in_range_def)
  show ?thesis
  proof (cases "a = i")
    case True
    then have "cell (upd dp i j v) a b = (dp ! nat i)[nat j := v] ! nat b"
      using li by (simp add: cell_def upd_def)
    also have "\<dots> = (if b = j then v else dp ! nat i ! nat b)"
    proof (cases "b = j")
      case True
      then show ?thesis using lj by simp
    next
      case False
      then have "nat j \<noteq> nat b" using bj by auto
      then show ?thesis
        using False nth_list_update_neq [of "nat j" "nat b" "dp ! nat i" v] by simp
    qed
    finally show ?thesis using True by (simp add: cell_def)
  next
    case False
    then have "nat a \<noteq> nat i" using ai by simp
    then show ?thesis using False by (simp add: cell_def upd_def)
  qed
qed

lemma upd_upd: "upd (upd dp i j v) i j w = upd dp i j w"
  by (cases "nat i < length dp") (simp_all add: upd_def list_update_beyond)

lemma upd_same: "upd dp i j (cell dp i j) = dp"
  by (simp add: upd_def cell_def)

lemma square_zeros: "square n (zeros n)"
  by (simp add: square_def zeros_def)

lemma cell_zeros: "in_range n i \<Longrightarrow> in_range n j \<Longrightarrow> cell (zeros n) i j = 0"
  using in_range_nat [of n i] in_range_nat [of n j] by (simp add: cell_def zeros_def)

lemma pair_score_in:
  "square n dp \<Longrightarrow> 0 \<le> i \<Longrightarrow> i \<le> k \<Longrightarrow> k < j \<Longrightarrow> j < int n \<Longrightarrow>
   pair_score dp i k j = Inr (score dp i k j)"
proof -
  assume sq: "square n dp" and b: "0 \<le> i" "i \<le> k" "k < j" "j < int n"
  have inner: "dp_get dp (i + 1) (k - 1) = Inr (cell dp (i + 1) (k - 1))" if "i + 1 \<le> k - 1"
    using that b by (intro dp_get_in [OF sq]) (simp_all add: in_range_def)
  have outer: "dp_get dp (k + 1) j = Inr (cell dp (k + 1) j)"
    using b by (intro dp_get_in [OF sq]) (simp_all add: in_range_def)
  show ?thesis
    using b inner outer by (simp add: pair_score_def score_def)
qed

lemma score_upd:
  "square n dp \<Longrightarrow> 0 \<le> i \<Longrightarrow> i \<le> k \<Longrightarrow> k < j \<Longrightarrow> j < int n \<Longrightarrow>
   in_range n i0 \<Longrightarrow> in_range n j0 \<Longrightarrow> j - i \<le> j0 - i0 \<Longrightarrow>
   score (upd dp i0 j0 v) i k j = score dp i k j"
proof -
  assume sq: "square n dp" and b: "0 \<le> i" "i \<le> k" "k < j" "j < int n"
    and r0: "in_range n i0" "in_range n j0" and le: "j - i \<le> j0 - i0"
  have inner: "cell (upd dp i0 j0 v) (i + 1) (k - 1) = cell dp (i + 1) (k - 1)" if "i + 1 \<le> k - 1"
  proof -
    have "in_range n (i + 1)" "in_range n (k - 1)"
      using that b by (simp_all add: in_range_def)
    from cell_upd [OF sq r0 this] show ?thesis using b le by auto
  qed
  have outer: "cell (upd dp i0 j0 v) (k + 1) j = cell dp (k + 1) j"
  proof -
    have "in_range n (k + 1)" "in_range n j"
      using b by (simp_all add: in_range_def)
    from cell_upd [OF sq r0 this] show ?thesis using b le by auto
  qed
  show ?thesis
    using b inner outer by (simp add: score_def)
qed

lemma best_cong:
  "\<forall>k \<in> set ks. score dp' i k j = score dp i k j \<Longrightarrow>
   best seq dp' i j ks cur = best seq dp i j ks cur"
  by (induction ks arbitrary: cur) simp_all

lemma best_ge: "cur \<le> best seq dp i j ks cur"
proof (induction ks arbitrary: cur)
  case Nil
  then show ?case by simp
next
  case (Cons k ks)
  have "cur \<le> (if can_pair (seq ! nat i) (seq ! nat k) then max cur (score dp i k j) else cur)"
    by simp
  also have "\<dots> \<le> best seq dp i j (k # ks) cur"
    using Cons.IH by simp
  finally show ?case .
qed

lemma best_cases:
  "best seq dp i j ks cur = cur \<or>
   (\<exists>k \<in> set ks. can_pair (seq ! nat i) (seq ! nat k) \<and> best seq dp i j ks cur = score dp i k j)"
proof (induction ks arbitrary: cur)
  case Nil
  then show ?case by simp
next
  case (Cons k ks)
  let ?c = "if can_pair (seq ! nat i) (seq ! nat k) then max cur (score dp i k j) else cur"
  from Cons.IH [of ?c] show ?case
  proof
    assume eq: "best seq dp i j ks ?c = ?c"
    show ?thesis
    proof (cases "can_pair (seq ! nat i) (seq ! nat k) \<and> cur < score dp i k j")
      case True
      then have "best seq dp i j (k # ks) cur = score dp i k j"
        using eq by (simp add: max_def)
      with True show ?thesis by auto
    next
      case False
      then have "?c = cur" by (auto simp: max_def)
      with eq have "best seq dp i j (k # ks) cur = cur" by simp
      then show ?thesis by blast
    qed
  next
    assume "\<exists>k' \<in> set ks. can_pair (seq ! nat i) (seq ! nat k') \<and>
        best seq dp i j ks ?c = score dp i k' j"
    then show ?thesis by auto
  qed
qed

lemma pair_loop_in:
  assumes "square n dp" and "length seq = n" and "0 \<le> i" and "i < j" and "j < int n"
    and "\<forall>k \<in> set ks. i \<le> k \<and> k < j"
  shows "pair_loop seq i j ks dp = Inr (upd dp i j (best seq dp i j ks (cell dp i j)))"
  using assms(1,6)
proof (induction ks arbitrary: dp)
  case Nil
  then show ?case by (simp add: upd_same)
next
  case (Cons k ks)
  have ri: "in_range n i" and rj: "in_range n j" and rk: "in_range n k"
    using assms(3-5) Cons.prems(2) by (auto simp: in_range_def)
  have rest: "\<forall>k \<in> set ks. i \<le> k \<and> k < j" using Cons.prems(2) by simp
  have gi: "py_get seq i = Inr (seq ! nat i)" and gk: "py_get seq k = Inr (seq ! nat k)"
    using ri rk assms(2) by (simp_all add: py_get_in)
  have ps: "pair_score dp i k j = Inr (score dp i k j)"
    using pair_score_in [OF Cons.prems(1) assms(3)] Cons.prems(2) assms(5) by simp
  show ?case
  proof (cases "can_pair (seq ! nat i) (seq ! nat k)")
    case False
    then show ?thesis
      using Cons.IH [OF Cons.prems(1) rest] gi gk by simp
  next
    case True
    let ?v = "max (cell dp i j) (score dp i k j)"
    let ?dp' = "upd dp i j ?v"
    have sq': "square n ?dp'" using square_upd [OF Cons.prems(1) ri] .
    have same: "\<forall>k' \<in> set ks. score ?dp' i k' j = score dp i k' j"
      using score_upd [OF Cons.prems(1) assms(3) _ _ assms(5) ri rj] rest by simp
    have c': "cell ?dp' i j = ?v"
      using cell_upd [OF Cons.prems(1) ri rj ri rj] by simp
    have "pair_loop seq i j (k # ks) dp = pair_loop seq i j ks ?dp'"
      using True gi gk ps dp_get_in [OF Cons.prems(1) ri rj] dp_set_in [OF Cons.prems(1) ri rj]
      by simp
    also have "\<dots> = Inr (upd ?dp' i j (best seq ?dp' i j ks (cell ?dp' i j)))"
      using Cons.IH [OF sq' rest] .
    also have "\<dots> = Inr (upd dp i j (best seq dp i j ks ?v))"
      using best_cong [OF same] c' by (simp add: upd_upd)
    finally show ?thesis using True by simp
  qed
qed

lemma value_of_upd:
  assumes "square n dp" and "0 \<le> i" and "i < j" and "j < int n"
    and "in_range n i0" and "in_range n j0" and "j - i \<le> j0 - i0"
  shows "value_of seq (upd dp i0 j0 v) i j = value_of seq dp i j"
proof -
  have "in_range n i" "in_range n (j - 1)"
    using assms(2-4) by (simp_all add: in_range_def)
  from cell_upd [OF assms(1,5,6) this]
  have c: "cell (upd dp i0 j0 v) i (j - 1) = cell dp i (j - 1)"
    using assms(7) by auto
  have s: "\<forall>k \<in> set (py_range i j). score (upd dp i0 j0 v) i k j = score dp i k j"
    using score_upd [OF assms(1,2) _ _ assms(4-7)] by (simp add: py_range_def)
  show ?thesis
    unfolding value_of_def using best_cong [OF s] c by simp
qed

lemma fill_cell:
  assumes "square n dp" and "length seq = n" and "0 \<le> i" and "i < j" and "j < int n"
  shows "and_then (dp_get dp i (j - 1)) (\<lambda>v.
         and_then (dp_set dp i j v) (\<lambda>dp1.
         and_then (pair_loop seq i j (py_range i j) dp1) f)) =
         f (upd dp i j (value_of seq dp i j))"
proof -
  have ri: "in_range n i" and rj: "in_range n j" and rj1: "in_range n (j - 1)"
    using assms(3-5) by (simp_all add: in_range_def)
  let ?dp1 = "upd dp i j (cell dp i (j - 1))"
  have sq1: "square n ?dp1" using square_upd [OF assms(1) ri] .
  have ks: "\<forall>k \<in> set (py_range i j). i \<le> k \<and> k < j"
    by (simp add: py_range_def)
  have c1: "cell ?dp1 i j = cell dp i (j - 1)"
    using cell_upd [OF assms(1) ri rj ri rj] by simp
  have same: "\<forall>k \<in> set (py_range i j). score ?dp1 i k j = score dp i k j"
    using score_upd [OF assms(1,3) _ _ assms(5) ri rj] ks by simp
  have "pair_loop seq i j (py_range i j) ?dp1 =
      Inr (upd ?dp1 i j (best seq ?dp1 i j (py_range i j) (cell ?dp1 i j)))"
    using pair_loop_in [OF sq1 assms(2-5) ks] .
  also have "\<dots> = Inr (upd dp i j (value_of seq dp i j))"
    using best_cong [OF same] c1 by (simp add: upd_upd value_of_def)
  finally have "pair_loop seq i j (py_range i j) ?dp1 = Inr (upd dp i j (value_of seq dp i j))" .
  then show ?thesis
    using dp_get_in [OF assms(1) ri rj1] dp_set_in [OF assms(1) ri rj] by simp
qed

lemma fill_inv_step:
  assumes "fill_inv seq n L s dp" and "2 \<le> L" and "0 \<le> s" and "s + L - 1 < int n"
  shows "fill_inv seq n L (s + 1) (upd dp s (s + L - 1) (value_of seq dp s (s + L - 1)))"
proof -
  let ?j = "s + L - 1"
  let ?dp' = "upd dp s ?j (value_of seq dp s ?j)"
  have sq: "square n dp" using assms(1) by (simp add: fill_inv_def)
  have rs: "in_range n s" and rj: "in_range n ?j"
    using assms(2-4) by (simp_all add: in_range_def)
  have sq': "square n ?dp'" using square_upd [OF sq rs] .
  have cell': "cell ?dp' a b = (if filled L (s + 1) a b then value_of seq ?dp' a b else 0)"
    if ra: "in_range n a" and rb: "in_range n b" for a b
  proof -
    have old: "cell dp a b = (if filled L s a b then value_of seq dp a b else 0)"
      using assms(1) ra rb by (simp add: fill_inv_def)
    have v_same: "value_of seq ?dp' a b = value_of seq dp a b" if "filled L (s + 1) a b"
    proof -
      from that have "a < b" "b - a \<le> ?j - s" by (auto simp: filled_def)
      then show ?thesis
        using value_of_upd [OF sq _ _ _ rs rj, of a b] ra rb by (simp add: in_range_def)
    qed
    show ?thesis
    proof (cases "a = s \<and> b = ?j")
      case True
      then have f: "filled L (s + 1) a b" using assms(2) by (simp add: filled_def)
      have "cell ?dp' a b = value_of seq dp s ?j"
        using cell_upd [OF sq rs rj ra rb] True by simp
      then show ?thesis using f v_same [OF f] True by simp
    next
      case False
      then have feq: "filled L (s + 1) a b \<longleftrightarrow> filled L s a b"
        by (auto simp: filled_def)
      have "cell ?dp' a b = cell dp a b"
        using cell_upd [OF sq rs rj ra rb] False by auto
      then show ?thesis using old feq v_same by auto
    qed
  qed
  show ?thesis
    unfolding fill_inv_def using sq' cell' by blast
qed

lemma start_loop_fills:
  assumes "length seq = n" and "2 \<le> L"
  shows "fill_inv seq n L s dp \<Longrightarrow> 0 \<le> s \<Longrightarrow>
    \<exists>dp'. start_loop seq L [s..int n - L] dp = Inr dp' \<and>
      fill_inv seq n L (max s (int n - L + 1)) dp'"
proof (induction "nat (int n - L + 1 - s)" arbitrary: s dp)
  case 0
  then have "[s..int n - L] = []" and "max s (int n - L + 1) = s" by simp_all
  then show ?case using "0.prems"(1) by simp
next
  case (Suc m)
  from Suc.hyps(2) have le: "s \<le> int n - L" by simp
  have sq: "square n dp" using Suc.prems(1) by (simp add: fill_inv_def)
  let ?j = "s + L - 1"
  let ?dp2 = "upd dp s ?j (value_of seq dp s ?j)"
  have j: "s < ?j" "?j < int n" using assms(2) le by simp_all
  have step: "fill_inv seq n L (s + 1) ?dp2"
    using fill_inv_step [OF Suc.prems(1) assms(2) Suc.prems(2) j(2)] .
  have m: "m = nat (int n - L + 1 - (s + 1))" using Suc.hyps(2) by simp
  from Suc.hyps(1) [OF m step] Suc.prems(2)
  obtain dp' where r: "start_loop seq L [s + 1..int n - L] ?dp2 = Inr dp'"
    and i: "fill_inv seq n L (max (s + 1) (int n - L + 1)) dp'" by auto
  have mx: "max (s + 1) (int n - L + 1) = max s (int n - L + 1)" using le by simp
  have "start_loop seq L [s..int n - L] dp = start_loop seq L (s # [s + 1..int n - L]) dp"
    using le by (simp add: upto_rec1)
  also have "\<dots> = start_loop seq L [s + 1..int n - L] ?dp2"
    using fill_cell [OF sq assms(1) Suc.prems(2) j] by (simp add: Let_def)
  finally show ?case using r i mx by simp
qed

lemma fill_inv_next:
  assumes "fill_inv seq n L (int n - L + 1) dp"
  shows "fill_inv seq n (L + 1) 0 dp"
proof -
  have "filled (L + 1) 0 a b \<longleftrightarrow> filled L (int n - L + 1) a b"
    if "in_range n a" and "in_range n b" for a b
    using that by (auto simp: filled_def in_range_def)
  then show ?thesis using assms unfolding fill_inv_def by simp
qed

lemma length_loop_fills:
  assumes "length seq = n"
  shows "fill_inv seq n L 0 dp \<Longrightarrow> 2 \<le> L \<Longrightarrow>
    \<exists>dp'. length_loop seq [L..int n] dp = Inr dp' \<and> fill_inv seq n (max L (int n + 1)) 0 dp'"
proof (induction "nat (int n + 1 - L)" arbitrary: L dp)
  case 0
  then have "[L..int n] = []" and "max L (int n + 1) = L" by simp_all
  then show ?case using "0.prems"(1) by simp
next
  case (Suc m)
  from Suc.hyps(2) have le: "L \<le> int n" by simp
  from start_loop_fills [OF assms Suc.prems(2) Suc.prems(1)]
  obtain dp1 where r1: "start_loop seq L [0..int n - L] dp = Inr dp1"
    and i1: "fill_inv seq n L (max 0 (int n - L + 1)) dp1" by auto
  have "max 0 (int n - L + 1) = int n - L + 1" using le by simp
  with i1 have i1': "fill_inv seq n (L + 1) 0 dp1" using fill_inv_next by simp
  have m: "m = nat (int n + 1 - (L + 1))" using Suc.hyps(2) by simp
  from Suc.hyps(1) [OF m i1'] Suc.prems(2)
  obtain dp' where r: "length_loop seq [L + 1..int n] dp1 = Inr dp'"
    and i: "fill_inv seq n (max (L + 1) (int n + 1)) 0 dp'" by auto
  have mx: "max (L + 1) (int n + 1) = max L (int n + 1)" using le by simp
  have "length_loop seq [L..int n] dp = length_loop seq (L # [L + 1..int n]) dp"
    using le by (simp add: upto_rec1)
  also have "\<dots> = length_loop seq [L + 1..int n] dp1"
    using r1 assms by (simp add: py_range_def)
  finally show ?case using r i mx by simp
qed

lemma nussinov_good: "\<exists>dp. nussinov_algorithm seq 1 = Inr dp \<and> good seq dp"
proof -
  let ?n = "length seq"
  have "cell (zeros ?n) a b = (if filled 2 0 a b then value_of seq (zeros ?n) a b else 0)"
    if ra: "in_range ?n a" and rb: "in_range ?n b" for a b
  proof -
    have "\<not> filled 2 0 a b" using ra by (auto simp: filled_def in_range_def)
    then show ?thesis using cell_zeros [OF ra rb] by simp
  qed
  then have "fill_inv seq ?n 2 0 (zeros ?n)"
    by (simp add: fill_inv_def square_zeros)
  from length_loop_fills [OF refl this]
  obtain dp where r: "length_loop seq [2..int ?n] (zeros ?n) = Inr dp"
    and i: "fill_inv seq ?n (max 2 (int ?n + 1)) 0 dp" by auto
  have "filled (max 2 (int ?n + 1)) 0 a b \<longleftrightarrow> a < b"
    if "in_range ?n a" and "in_range ?n b" for a b
    using that by (auto simp: filled_def in_range_def)
  with i have "good seq dp" unfolding fill_inv_def good_def by simp
  moreover have "nussinov_algorithm seq 1 = Inr dp"
    using r by (simp add: nussinov_algorithm_def py_range_def)
  ultimately show ?thesis by blast
qed

section \<open>The structure written by \<open>traceback\<close>\<close>

declare traceback_recursive.simps [simp del]

lemma seg_empty: "j < i \<Longrightarrow> seg st i j = []"
  by (simp add: seg_def)

lemma seg_snoc: "i \<le> j \<Longrightarrow> seg st i j = seg st i (j - 1) @ [st ! nat j]"
  by (simp add: seg_def upto_rec2)

lemma seg_pair:
  assumes "i < k" and "k \<le> j"
  shows "seg st i j = st ! nat i # seg st (i + 1) (k - 1) @ st ! nat k # seg st (k + 1) j"
proof -
  have "[i..j] = i # [i + 1..j]" using assms by (simp add: upto_rec1)
  also have "[i + 1..j] = [i + 1..k - 1] @ k # [k + 1..j]"
    using assms by (intro upto_split3) simp_all
  finally show ?thesis by (simp add: seg_def)
qed

lemma seg_cong:
  "(\<And>p. i \<le> p \<Longrightarrow> p \<le> j \<Longrightarrow> st ! nat p = st' ! nat p) \<Longrightarrow> seg st i j = seg st' i j"
  by (simp add: seg_def)

lemma seg_whole: "seg st 0 (int (length st) - 1) = st"
proof (rule nth_equalityI)
  show "length (seg st 0 (int (length st) - 1)) = length st"
    by (simp add: seg_def)
next
  fix q assume "q < length (seg st 0 (int (length st) - 1))"
  then have q: "q < length st" by (simp add: seg_def)
  then have "[0..int (length st) - 1] ! q = int q" by simp
  then show "seg st 0 (int (length st) - 1) ! q = st ! q"
    using q by (simp add: seg_def)
qed

lemma nth_upd_int:
  assumes "0 \<le> i" and "i < int (length st)" and "0 \<le> p"
  shows "st[nat i := x] ! nat p = (if p = i then x else st ! nat p)"
proof (cases "p = i")
  case True
  then show ?thesis using assms by simp
next
  case False
  then have "nat i \<noteq> nat p" using assms by auto
  then show ?thesis using False nth_list_update_neq [of "nat i" "nat p" st x] by simp
qed

lemma can_pair_irrefl: "\<not> can_pair c c"
  by (simp add: can_pair_def bp_complement_def)

lemma first_partner_in:
  assumes "square n dp" and "length seq = n" and "0 \<le> i" and "i < j" and "j < int n"
  shows "\<forall>k \<in> set ks. i \<le> k \<and> k < j \<Longrightarrow>
    first_partner seq dp i j ks =
      Inr (find (\<lambda>k. can_pair (seq ! nat i) (seq ! nat k) \<and> cell dp i j = score dp i k j) ks)"
proof (induction ks)
  case Nil
  then show ?case by simp
next
  case (Cons k ks)
  have ri: "in_range n i" and rj: "in_range n j" and rk: "in_range n k"
    using assms(3-5) Cons.prems by (auto simp: in_range_def)
  have gi: "py_get seq i = Inr (seq ! nat i)" and gk: "py_get seq k = Inr (seq ! nat k)"
    using ri rk assms(2) by (simp_all add: py_get_in)
  have ps: "pair_score dp i k j = Inr (score dp i k j)"
    using pair_score_in [OF assms(1,3)] Cons.prems assms(5) by simp
  have rest: "first_partner seq dp i j ks =
      Inr (find (\<lambda>k. can_pair (seq ! nat i) (seq ! nat k) \<and> cell dp i j = score dp i k j) ks)"
    using Cons by simp
  show ?case
    using gi gk ps dp_get_in [OF assms(1) ri rj] rest by simp
qed

lemma dp_get_before:
  assumes "square n dp" and "in_range n i" and "in_range n j"
  shows "\<exists>b. dp_get dp i (j - 1) = Inr b \<and> (0 < j \<longrightarrow> b = cell dp i (j - 1))"
proof (cases "0 < j")
  case True
  then have "in_range n (j - 1)" using assms(3) by (simp add: in_range_def)
  from dp_get_in [OF assms(1,2) this] True show ?thesis by simp
next
  case False
  then have j: "j = 0" using assms(3) by (simp add: in_range_def)
  have "py_get dp i = Inr (dp ! nat i)"
    using assms(1,2) by (simp add: py_get_in square_def)
  moreover have "length (dp ! nat i) = n" using square_row [OF assms(1,2)] .
  moreover have "0 < n" using assms(2) by (simp add: in_range_def)
  ultimately show ?thesis
    using j by (simp add: dp_get_def py_get_def)
qed

lemma traceback_recursive_empty: "j < i \<Longrightarrow> traceback_recursive seq dp i j st = Inr st"
  by (simp add: traceback_recursive.simps)

lemma traceback_recursive_single:
  assumes "good seq dp" and "in_range (length seq) i"
  shows "traceback_recursive seq dp i i st = Inr st"
proof -
  have sq: "square (length seq) dp" using assms(1) by (simp add: good_def)
  have a: "dp_get dp i i = Inr (cell dp i i)" using dp_get_in [OF sq assms(2,2)] .
  obtain b where b: "dp_get dp i (i - 1) = Inr b"
    using dp_get_before [OF sq assms(2,2)] by blast
  show ?thesis
    using a b
    by (simp add: traceback_recursive.simps [of seq dp i i] traceback_recursive_empty py_range_def)
qed

lemma traced_skip:
  assumes "traced dp st i (j - 1) st'" and "0 \<le> i" and "i < j"
    and "st ! nat j = CHR ''.''" and "cell dp i j = cell dp i (j - 1)"
  shows "traced dp st i j st'"
proof -
  from assms(1) have len: "length st' = length st"
    and out: "\<forall>p. 0 \<le> p \<and> (p < i \<or> j - 1 < p) \<longrightarrow> st' ! nat p = st ! nat p"
    and nst: "nested (seg st' i (j - 1))"
    and cnt: "count_list (seg st' i (j - 1)) (CHR ''('') = cell dp i (j - 1)"
    using assms(3) by (simp_all add: traced_def)
  have last: "st' ! nat j = CHR ''.''" using out assms(2-4) by simp
  have sg: "seg st' i j = seg st' i (j - 1) @ [CHR ''.'']"
    using seg_snoc [of i j st'] assms(3) last by simp
  have "nested (seg st' i j)" using nst sg nested_dot by simp
  moreover have "count_list (seg st' i j) (CHR ''('') = cell dp i j"
    using sg cnt assms(5) by simp
  moreover have "st' ! nat p = st ! nat p" if "0 \<le> p" and "p < i \<or> j < p" for p
  proof -
    from that have "0 \<le> p \<and> (p < i \<or> j - 1 < p)" by auto
    with out show ?thesis by blast
  qed
  ultimately show ?thesis using len assms(3) by (simp add: traced_def)
qed

lemma traced_pair:
  assumes "0 \<le> i" and "i < k" and "k < j" and "j < int (length st)"
    and t1: "traced dp (st[nat i := CHR ''('', nat k := CHR '')'']) (i + 1) (k - 1) st3"
    and t2: "traced dp st3 (k + 1) j st4"
    and sc: "cell dp i j = score dp i k j"
  shows "traced dp st i j st4"
proof -
  let ?st2 = "st[nat i := CHR ''('', nat k := CHR '')'']"
  have st2: "?st2 ! nat p = (if p = k then CHR '')'' else if p = i then CHR ''('' else st ! nat p)"
    if "0 \<le> p" for p
    using that assms(1-4) nth_upd_int [of k "st[nat i := CHR ''('']" p "CHR '')''"]
      nth_upd_int [of i st p "CHR ''(''"] by simp
  from t1 have len3: "length st3 = length st"
    and out3: "\<forall>p. 0 \<le> p \<and> (p < i + 1 \<or> k - 1 < p) \<longrightarrow> st3 ! nat p = ?st2 ! nat p"
    and nst3: "nested (seg st3 (i + 1) (k - 1))"
    and cnt3: "count_list (seg st3 (i + 1) (k - 1)) (CHR ''('') =
        (if i + 1 \<le> k - 1 then cell dp (i + 1) (k - 1) else 0)"
    by (simp_all add: traced_def)
  from t2 have len4: "length st4 = length st3"
    and out4: "\<forall>p. 0 \<le> p \<and> (p < k + 1 \<or> j < p) \<longrightarrow> st4 ! nat p = st3 ! nat p"
    and nst4: "nested (seg st4 (k + 1) j)"
    and cnt4: "count_list (seg st4 (k + 1) j) (CHR ''('') =
        (if k + 1 \<le> j then cell dp (k + 1) j else 0)"
    by (simp_all add: traced_def)
  have at_i: "st4 ! nat i = CHR ''(''"
  proof -
    have "st4 ! nat i = st3 ! nat i" using out4 assms(1-3) by simp
    also have "\<dots> = ?st2 ! nat i" using out3 assms(1) by simp
    also have "\<dots> = CHR ''(''" using st2 [of i] assms(1,2) by simp
    finally show ?thesis .
  qed
  have at_k: "st4 ! nat k = CHR '')''"
  proof -
    have "st4 ! nat k = st3 ! nat k" using out4 assms(1-3) by simp
    also have "\<dots> = ?st2 ! nat k" using out3 assms(1,2) by simp
    also have "\<dots> = CHR '')''" using st2 [of k] assms(1,2) by simp
    finally show ?thesis .
  qed
  have inner: "seg st4 (i + 1) (k - 1) = seg st3 (i + 1) (k - 1)"
    using out4 assms(1) by (intro seg_cong) simp
  have sg: "seg st4 i j =
      CHR ''('' # seg st3 (i + 1) (k - 1) @ CHR '')'' # seg st4 (k + 1) j"
    using seg_pair [of i k j st4] assms(2,3) at_i at_k inner by simp
  have "nested (seg st4 i j)"
    using sg nested_pair [OF nst3 nst4] by simp
  moreover have "count_list (seg st4 i j) (CHR ''('') = cell dp i j"
    using sg cnt3 cnt4 sc by (simp add: score_def)
  moreover have "st4 ! nat p = st ! nat p" if "0 \<le> p" and "p < i \<or> j < p" for p
  proof -
    have "st4 ! nat p = st3 ! nat p" using out4 that assms(2,3) by auto
    also have "\<dots> = ?st2 ! nat p" using out3 that assms(2,3) by auto
    also have "\<dots> = st ! nat p" using st2 [OF that(1)] that(2) assms(2,3) by auto
    finally show ?thesis .
  qed
  ultimately show ?thesis
    using len3 len4 assms(2,3) by (simp add: traced_def)
qed

lemma first_partner_found:
  assumes g: "good seq dp" and "0 \<le> i" and "i < j" and "j < int (length seq)"
    and ne: "cell dp i j \<noteq> cell dp i (j - 1)"
  shows "\<exists>k. first_partner seq dp i j (py_range i j) = Inr (Some k) \<and> i < k \<and> k < j \<and>
    cell dp i j = score dp i k j"
proof -
  let ?P = "\<lambda>k. can_pair (seq ! nat i) (seq ! nat k) \<and> cell dp i j = score dp i k j"
  have sq: "square (length seq) dp" using g by (simp add: good_def)
  have ks: "\<forall>k \<in> set (py_range i j). i \<le> k \<and> k < j" by (simp add: py_range_def)
  have fp: "first_partner seq dp i j (py_range i j) = Inr (find ?P (py_range i j))"
    using first_partner_in [OF sq refl assms(2-4) ks] .
  have "in_range (length seq) i" "in_range (length seq) j"
    using assms(2-4) by (simp_all add: in_range_def)
  with g assms(3) have v: "cell dp i j = value_of seq dp i j" by (simp add: good_def)
  from best_cases [of seq dp i j "py_range i j" "cell dp i (j - 1)"] v ne
  have "\<exists>k \<in> set (py_range i j). ?P k" by (auto simp: value_of_def)
  then have "find ?P (py_range i j) \<noteq> None" by (auto simp: find_None_iff)
  then obtain k where k: "find ?P (py_range i j) = Some k" by blast
  then have "k \<in> set (py_range i j)" and pk: "?P k"
    by (auto simp: find_Some_iff)
  then have "i \<le> k" "k < j" using ks by auto
  moreover have "k \<noteq> i" using pk can_pair_irrefl by auto
  ultimately show ?thesis using fp k pk by auto
qed

lemma traceback_recursive_ok:
  assumes g: "good seq dp"
  shows "0 \<le> i \<Longrightarrow> j < int (length seq) \<Longrightarrow> i \<le> j + 1 \<Longrightarrow> length st = length seq \<Longrightarrow>
     (\<forall>p. i \<le> p \<and> p \<le> j \<longrightarrow> st ! nat p = CHR ''.'') \<Longrightarrow>
     \<exists>st'. traceback_recursive seq dp i j st = Inr st' \<and> traced dp st i j st'"
proof (induction "nat (j - i + 1)" arbitrary: i j st rule: less_induct)
  case less
  let ?n = "length seq"
  have sq: "square ?n dp" using g by (simp add: good_def)
  note b = less.prems
  show ?case
  proof (cases "j < i")
    case True
    have "traced dp st i j st"
      using True by (simp add: traced_def seg_empty nested_empty)
    then show ?thesis using traceback_recursive_empty [OF True] by simp
  next
    case False
    then have ij: "i \<le> j" by simp
    have ri: "in_range ?n i" and rj: "in_range ?n j"
      using b(1,2) ij by (simp_all add: in_range_def)
    have a: "dp_get dp i j = Inr (cell dp i j)" using dp_get_in [OF sq ri rj] .
    show ?thesis
    proof (cases "i = j")
      case True
      have c0: "cell dp i i = 0" using g ri by (simp add: good_def)
      have dot: "st ! nat i = CHR ''.''" using b(5) True by simp
      have "seg st i i = [] @ [CHR ''.'']"
        using seg_snoc [of i i st] dot by (simp add: seg_empty)
      then have "nested (seg st i i)"
        using nested_dot [OF nested_empty] by simp
      moreover have "count_list (seg st i i) (CHR ''('') = 0"
        using seg_snoc [of i i st] dot by (simp add: seg_empty)
      ultimately have "traced dp st i j st"
        using True c0 by (simp add: traced_def)
      then show ?thesis using traceback_recursive_single [OF g ri] True by simp
    next
      case False
      with ij have lt: "i < j" by simp
      have rj1: "in_range ?n (j - 1)" using b(1,2) lt by (simp add: in_range_def)
      have b1: "dp_get dp i (j - 1) = Inr (cell dp i (j - 1))" using dp_get_in [OF sq ri rj1] .
      show ?thesis
      proof (cases "cell dp i j = cell dp i (j - 1)")
        case True
        have unfold: "traceback_recursive seq dp i j st = traceback_recursive seq dp i (j - 1) st"
          using a b1 True ij by (simp add: traceback_recursive.simps [of seq dp i j])
        have m0: "nat (j - 1 - i + 1) < nat (j - i + 1)" using lt by simp
        have d0: "\<forall>p. i \<le> p \<and> p \<le> j - 1 \<longrightarrow> st ! nat p = CHR ''.''"
          using b(5) by simp
        have "j - 1 < int ?n" "i \<le> j - 1 + 1" using b(2) lt by simp_all
        from less.hyps [OF m0 b(1) this b(4) d0]
        obtain st' where r: "traceback_recursive seq dp i (j - 1) st = Inr st'"
          and t: "traced dp st i (j - 1) st'" by auto
        have "st ! nat j = CHR ''.''" using b(5) ij by simp
        from traced_skip [OF t b(1) lt this True] unfold r show ?thesis by simp
      next
        case ne: False
        from first_partner_found [OF g b(1) lt b(2) ne]
        obtain k where fp: "first_partner seq dp i j (py_range i j) = Inr (Some k)"
          and k: "i < k" "k < j" and sc: "cell dp i j = score dp i k j" by blast
        let ?st1 = "st[nat i := CHR ''('']"
        let ?st2 = "?st1[nat k := CHR '')'']"
        have s1: "py_set st i (CHR ''('') = Inr ?st1"
          using b(1,2,4) lt by (intro py_set_in) (simp add: in_range_def)
        have s2: "py_set ?st1 k (CHR '')'') = Inr ?st2"
          using b(1,2,4) k by (intro py_set_in) (simp add: in_range_def)
        have dots2: "?st2 ! nat p = CHR ''.''" if "i + 1 \<le> p" and "p \<le> j" and "p \<noteq> k" for p
        proof -
          have "?st2 ! nat p = ?st1 ! nat p"
            using nth_upd_int [of k ?st1 p] b(1,2,4) k that by simp
          also have "\<dots> = st ! nat p"
            using nth_upd_int [of i st p] b(1,2,4) lt that by simp
          finally show ?thesis using b(5) that by simp
        qed
        have m1: "nat (k - 1 - (i + 1) + 1) < nat (j - i + 1)" using k by simp
        have d1: "\<forall>p. i + 1 \<le> p \<and> p \<le> k - 1 \<longrightarrow> ?st2 ! nat p = CHR ''.''"
          using dots2 k by simp
        have "0 \<le> i + 1" "k - 1 < int ?n" "i + 1 \<le> k - 1 + 1" "length ?st2 = ?n"
          using b(1,2,4) k by simp_all
        from less.hyps [OF m1 this d1]
        obtain st3 where r3: "traceback_recursive seq dp (i + 1) (k - 1) ?st2 = Inr st3"
          and t3: "traced dp ?st2 (i + 1) (k - 1) st3" by auto
        have len3: "length st3 = length seq" using t3 b(4) by (simp add: traced_def)
        have dots3: "st3 ! nat p = CHR ''.''" if "k + 1 \<le> p" and "p \<le> j" for p
        proof -
          have "st3 ! nat p = ?st2 ! nat p"
            using t3 that b(1) k by (simp add: traced_def)
          then show ?thesis using dots2 [of p] that k by simp
        qed
        have m2: "nat (j - (k + 1) + 1) < nat (j - i + 1)" using k by simp
        have d2: "\<forall>p. k + 1 \<le> p \<and> p \<le> j \<longrightarrow> st3 ! nat p = CHR ''.''"
          using dots3 by simp
        have "0 \<le> k + 1" "k + 1 \<le> j + 1" using b(1) k by simp_all
        from less.hyps [OF m2 this(1) b(2) this(2) len3 d2]
        obtain st4 where r4: "traceback_recursive seq dp (k + 1) j st3 = Inr st4"
          and t4: "traced dp st3 (k + 1) j st4" by auto
        have "traceback_recursive seq dp i j st = Inr st4"
          using a b1 ne ij fp s1 s2 r3 r4
          by (simp add: traceback_recursive.simps [of seq dp i j])
        moreover have "traced dp st i j st4"
          using traced_pair [OF b(1) k(1,2) _ t3 t4 sc] b(2,4) by simp
        ultimately show ?thesis by simp
      qed
    qed
  qed
qed

subsection \<open>The prediction of a non-empty sequence\<close>

lemma predict_structure_ok:
  assumes "S \<noteq> []"
  shows "\<exists>dp st. predict_structure S =
      Inr \<lparr>sequence = S, structure_str = st, base_pairs = cell dp 0 (int (length S) - 1),
           score_matrix = dp, seq_length = length S\<rparr> \<and>
      good S dp \<and> length st = length S \<and> nested st \<and>
      count_list st (CHR ''('') = cell dp 0 (int (length S) - 1)"
proof -
  let ?n = "length S"
  let ?dots = "replicate ?n (CHR ''.'')"
  have n: "0 < ?n" using assms by simp
  obtain dp where nu: "nussinov_algorithm S 1 = Inr dp" and g: "good S dp"
    using nussinov_good by blast
  have sq: "square ?n dp" using g by (simp add: good_def)
  have d: "\<forall>p. 0 \<le> p \<and> p \<le> int ?n - 1 \<longrightarrow> ?dots ! nat p = CHR ''.''"
    by auto
  have "(0::int) \<le> 0" "int ?n - 1 < int ?n" "0 \<le> int ?n - 1 + 1" "length ?dots = ?n"
    by simp_all
  from traceback_recursive_ok [OF g this d]
  obtain st where r: "traceback_recursive S dp 0 (int ?n - 1) ?dots = Inr st"
    and t: "traced dp ?dots 0 (int ?n - 1) st" by blast
  have len: "length st = ?n" using t by (simp add: traced_def)
  have whole: "seg st 0 (int ?n - 1) = st" using seg_whole [of st] len by simp
  have nst: "nested st" and cnt: "count_list st (CHR ''('') = cell dp 0 (int ?n - 1)"
    using t whole n by (simp_all add: traced_def)
  have tb: "traceback S dp 0 (int ?n - 1) = Inr st"
    using r n by (simp add: traceback_def)
  have "in_range ?n 0" "in_range ?n (int ?n - 1)" using n by (simp_all add: in_range_def)
  from dp_get_in [OF sq this] have v: "dp_get dp 0 (int ?n - 1) = Inr (cell dp 0 (int ?n - 1))" .
  have "predict_structure S =
      Inr \<lparr>sequence = S, structure_str = st, base_pairs = cell dp 0 (int ?n - 1),
           score_matrix = dp, seq_length = ?n\<rparr>"
    using nu tb v by (simp add: predict_structure_def)
  then show ?thesis using g len nst cnt by blast
qed

subsection \<open>Nested strings under a stack parse\<close>

lemma nested_counts: "nested w \<Longrightarrow> count_list w (CHR '')'') = count_list w (CHR ''('')"
  by (induction rule: nested.induct) simp_all

lemma stack_parse_nested:
  "nested w \<Longrightarrow>
   stack_parse (enumerate p (w @ rest)) stack = stack_parse (enumerate (p + length w) rest) stack"
proof (induction arbitrary: p rest stack rule: nested.induct)
  case nested_empty
  then show ?case by simp
next
  case (nested_dot w)
  from nested_dot.IH [of p "CHR ''.'' # rest" stack] show ?case by simp
next
  case (nested_pair u v)
  have "stack_parse (enumerate p ((CHR ''('' # u @ CHR '')'' # v) @ rest)) stack =
      stack_parse (enumerate (Suc p) (u @ CHR '')'' # v @ rest)) (p # stack)"
    by simp
  also have "\<dots> = stack_parse (enumerate (Suc p + length u) (CHR '')'' # v @ rest)) (p # stack)"
    using nested_pair.IH(1) by simp
  also have "\<dots> = stack_parse (enumerate (Suc (Suc p + length u)) (v @ rest)) stack"
    by simp
  also have "\<dots> = stack_parse (enumerate (Suc (Suc p + length u) + length v) rest) stack"
    using nested_pair.IH(2) by simp
  finally show ?case by (simp add: add.assoc)
qed

lemma nested_resolves: "nested w \<Longrightarrow> resolves w"
  using stack_parse_nested [of w 0 "[]" "[]"] by (simp add: resolves_def)

lemma base_pairs_loop_nested:
  "nested w \<Longrightarrow>
   \<exists>ps. length ps = count_list w (CHR ''('') \<and>
     base_pairs_loop (enumerate p (w @ rest)) pairs stack =
       base_pairs_loop (enumerate (p + length w) rest) (pairs @ ps) stack"
proof (induction arbitrary: p rest pairs stack rule: nested.induct)
  case nested_empty
  have "length ([] :: (nat \<times> nat) list) = count_list [] (CHR ''('')" by simp
  then show ?case by fastforce
next
  case (nested_dot w)
  from nested_dot.IH [of p "CHR ''.'' # rest" pairs stack]
  obtain ps where "length ps = count_list w (CHR ''('')"
    and "base_pairs_loop (enumerate p (w @ CHR ''.'' # rest)) pairs stack =
       base_pairs_loop (enumerate (p + length w) (CHR ''.'' # rest)) (pairs @ ps) stack"
    by blast
  then have "length ps = count_list (w @ [CHR ''.'']) (CHR ''('') \<and>
      base_pairs_loop (enumerate p ((w @ [CHR ''.'']) @ rest)) pairs stack =
       base_pairs_loop (enumerate (p + length (w @ [CHR ''.''])) rest) (pairs @ ps) stack"
    by simp
  then show ?case by blast
next
  case (nested_pair u v)
  let ?q = "Suc p + length u"
  from nested_pair.IH(1) [of "Suc p" "CHR '')'' # v @ rest" pairs "p # stack"]
  obtain ps1 where l1: "length ps1 = count_list u (CHR ''('')"
    and e1: "base_pairs_loop (enumerate (Suc p) (u @ CHR '')'' # v @ rest)) pairs (p # stack) =
       base_pairs_loop (enumerate ?q (CHR '')'' # v @ rest)) (pairs @ ps1) (p # stack)"
    by blast
  from nested_pair.IH(2) [of "Suc ?q" rest "(pairs @ ps1) @ [(p, ?q)]" stack]
  obtain ps2 where l2: "length ps2 = count_list v (CHR ''('')"
    and e2: "base_pairs_loop (enumerate (Suc ?q) (v @ rest)) ((pairs @ ps1) @ [(p, ?q)]) stack =
       base_pairs_loop (enumerate (Suc ?q + length v) rest) (((pairs @ ps1) @ [(p, ?q)]) @ ps2) stack"
    by blast
  let ?ps = "ps1 @ (p, ?q) # ps2"
  have "base_pairs_loop (enumerate p ((CHR ''('' # u @ CHR '')'' # v) @ rest)) pairs stack =
      base_pairs_loop (enumerate (Suc p) (u @ CHR '')'' # v @ rest)) pairs (p # stack)"
    by simp
  also have "\<dots> = base_pairs_loop (enumerate (Suc ?q) (v @ rest)) ((pairs @ ps1) @ [(p, ?q)]) stack"
    using e1 by simp
  also have "\<dots> = base_pairs_loop (enumerate (p + length (CHR ''('' # u @ CHR '')'' # v)) rest)
      (pairs @ ?ps) stack"
    using e2 by (simp add: add.assoc)
  finally have "base_pairs_loop (enumerate p ((CHR ''('' # u @ CHR '')'' # v) @ rest)) pairs stack =
      base_pairs_loop (enumerate (p + length (CHR ''('' # u @ CHR '')'' # v)) rest)
      (pairs @ ?ps) stack" .
  moreover have "length ?ps = count_list (CHR ''('' # u @ CHR '')'' # v) (CHR ''('')"
    using l1 l2 by simp
  ultimately show ?case by blast
qed

lemma nested_base_pairs: "nested w \<Longrightarrow> length (get_base_pairs w) = count_list w (CHR ''('')"
proof -
  assume "nested w"
  from base_pairs_loop_nested [OF this, of 0 "[]" "[]" "[]"]
  obtain ps where "length ps = count_list w (CHR ''('')"
    and "base_pairs_loop (enumerate 0 w) [] [] = ps" by auto
  then show ?thesis by (simp add: get_base_pairs_def)
qed

section \<open>Properties of every prediction\<close>

lemma predict_structure_nil: "predict_structure [] = Inl IndexError"
  by (simp add: predict_structure_def nussinov_algorithm_def py_range_def zeros_def
      traceback_def dp_get_def py_get_def)

text \<open>
  C4. \<open>predict_structure\<close> returns for every non-empty sequence, and whenever it returns,
  the structure has the length of the sequence, as many \<open>(\<close> as \<open>)\<close>, both equal to the
  reported \<open>base_pairs\<close>, and the stack parse resolves every bracket (no \<open>)\<close> meets an empty
  stack and no \<open>(\<close> stays open, so each \<open>(\<close> has a later partner). The pairs found by
  \<open>_get_base_pairs\<close> are exactly \<open>base_pairs\<close> many, each with its \<open>(\<close> before its \<open>)\<close>, and
  no two of them cross. (For the empty sequence no structure is returned, see C3; the
  recursion limit and the memory of the interpreter are not modelled.)
\<close>

theorem predict_structure_balanced:
  "(S \<noteq> [] \<longrightarrow> (\<exists>r. predict_structure S = Inr r)) \<and>
   (\<forall>r. predict_structure S = Inr r \<longrightarrow>
      length (structure_str r) = length S \<and>
      count_list (structure_str r) (CHR ''('') = base_pairs r \<and>
      count_list (structure_str r) (CHR '')'') = base_pairs r \<and>
      resolves (structure_str r) \<and>
      length (get_base_pairs (structure_str r)) = base_pairs r \<and>
      list_all (\<lambda>(a, b). a < b) (get_base_pairs (structure_str r)) \<and>
      list_all (\<lambda>p. list_all (\<lambda>q. \<not> crossing p q) (get_base_pairs (structure_str r)))
        (get_base_pairs (structure_str r)))"
proof (cases "S = []")
  case True
  then show ?thesis using predict_structure_nil by simp
next
  case False
  from predict_structure_ok [OF False]
  obtain dp st where r: "predict_structure S =
      Inr \<lparr>sequence = S, structure_str = st, base_pairs = cell dp 0 (int (length S) - 1),
           score_matrix = dp, seq_length = length S\<rparr>"
    and len: "length st = length S" and nst: "nested st"
    and cnt: "count_list st (CHR ''('') = cell dp 0 (int (length S) - 1)" by blast
  show ?thesis
    using r len cnt nested_counts [OF nst] nested_resolves [OF nst] nested_base_pairs [OF nst]
      get_base_pairs_nested [of st]
    by simp
qed

theorem predict_structure_balanced_witness:
  "\<exists>r. predict_structure ''GCGCUAAT'' = Inr r \<and>
     length (structure_str r) = 8 \<and>
     count_list (structure_str r) (CHR ''('') = base_pairs r \<and>
     count_list (structure_str r) (CHR '')'') = base_pairs r \<and>
     resolves (structure_str r) \<and>
     length (get_base_pairs (structure_str r)) = base_pairs r \<and>
     list_all (\<lambda>(a, b). a < b) (get_base_pairs (structure_str r)) \<and>
     list_all (\<lambda>p. list_all (\<lambda>q. \<not> crossing p q) (get_base_pairs (structure_str r)))
       (get_base_pairs (structure_str r))"
proof -
  have ne: "''GCGCUAAT'' \<noteq> []" by simp
  from predict_structure_balanced [of "''GCGCUAAT''"] ne
  obtain r where r: "predict_structure ''GCGCUAAT'' = Inr r" by blast
  from predict_structure_balanced [of "''GCGCUAAT''"] r
  have "length (structure_str r) = length ''GCGCUAAT'' \<and>
      count_list (structure_str r) (CHR ''('') = base_pairs r \<and>
      count_list (structure_str r) (CHR '')'') = base_pairs r \<and>
      resolves (structure_str r) \<and>
      length (get_base_pairs (structure_str r)) = base_pairs r \<and>
      list_all (\<lambda>(a, b). a < b) (get_base_pairs (structure_str r)) \<and>
      list_all (\<lambda>p. list_all (\<lambda>q. \<not> crossing p q) (get_base_pairs (structure_str r)))
        (get_base_pairs (structure_str r))" by blast
  with r show ?thesis by auto
qed

text \<open>
  C5. The crossing detector finds nothing in the structure of any prediction:
  \<open>predict_structure\<close> returns for every non-empty sequence, and on every structure it
  returns \<open>identify_crossing_patterns\<close> is the empty list. (The pairs of a stack parse
  never interleave, so the detector is empty on every string.)
\<close>

theorem predicted_structure_never_crosses:
  "(S \<noteq> [] \<longrightarrow> (\<exists>r. predict_structure S = Inr r)) \<and>
   (\<forall>r. predict_structure S = Inr r \<longrightarrow> identify_crossing_patterns (structure_str r) = [])"
  using predict_structure_ok [of S] by (auto simp: identify_crossing_patterns_empty)

theorem predicted_structure_never_crosses_witness:
  "\<exists>r. predict_structure ''GAATTCGC'' = Inr r \<and>
     identify_crossing_patterns (structure_str r) = []"
proof -
  have ne: "''GAATTCGC'' \<noteq> []" by simp
  from predicted_structure_never_crosses [of "''GAATTCGC''"] ne
  obtain r where r: "predict_structure ''GAATTCGC'' = Inr r" by blast
  from predicted_structure_never_crosses [of "''GAATTCGC''"] r
  have "identify_crossing_patterns (structure_str r) = []" by blast
  with r show ?thesis by blast
qed

section \<open>Properties of the sliding-window scan\<close>

declare range_up.simps [simp del] range_down.simps [simp del]

lemma range_up_filter:
  assumes "0 < s"
  shows "stop \<le> int m * s \<Longrightarrow>
    range_up (int a * s) stop s = filter (\<lambda>i. i < stop) (map (\<lambda>k. int k * s) [a..<m])"
proof (induction "m - a" arbitrary: a rule: less_induct)
  case less
  show ?case
  proof (cases "int a * s < stop")
    case False
    have "\<not> int k * s < stop" if "k \<in> set [a..<m]" for k
    proof -
      from that have "int a \<le> int k" by simp
      then have "int a * s \<le> int k * s" using assms by (intro mult_right_mono) simp_all
      with False show ?thesis by simp
    qed
    then have "filter (\<lambda>i. i < stop) (map (\<lambda>k. int k * s) [a..<m]) = []"
      by (simp add: filter_empty_conv)
    moreover have "range_up (int a * s) stop s = []"
      using False by (simp add: range_up.simps [of "int a * s"])
    ultimately show ?thesis by simp
  next
    case True
    with less.prems have "int a * s < int m * s" by simp
    then have am: "a < m" using assms by (simp add: mult_less_cancel_right)
    have next_a: "int a * s + s = int (Suc a) * s" by (simp add: algebra_simps)
    have "range_up (int a * s) stop s = int a * s # range_up (int (Suc a) * s) stop s"
      using True assms next_a by (simp add: range_up.simps [of "int a * s"])
    also have "range_up (int (Suc a) * s) stop s =
        filter (\<lambda>i. i < stop) (map (\<lambda>k. int k * s) [Suc a..<m])"
      using less.hyps [of "Suc a"] am less.prems by simp
    finally show ?thesis using True am by (simp add: upt_conv_Cons)
  qed
qed

lemma py_slice_window:
  assumes "0 \<le> i" and "0 < w" and "i + w \<le> int (length xs)"
  shows "py_slice xs i (i + w) = take (nat w) (drop (nat i) xs)"
    and "length (py_slice xs i (i + w)) = nat w"
proof -
  have lo: "slice_bound (length xs) i = nat i"
    using assms by (simp add: slice_bound_def)
  have hi: "slice_bound (length xs) (i + w) = nat i + nat w"
    using assms by (simp add: slice_bound_def nat_add_distrib)
  show "py_slice xs i (i + w) = take (nat w) (drop (nat i) xs)"
    using lo hi by (simp add: py_slice_def)
  then show "length (py_slice xs i (i + w)) = nat w"
    using assms by simp
qed

lemma window_loop_ok:
  assumes "0 < w"
  shows "\<forall>i \<in> set starts. 0 \<le> i \<and> i + w < int (length seq) \<Longrightarrow>
    \<exists>new. window_loop w seq starts results = Inr (results @ new) \<and>
      map window_start new = starts \<and>
      (\<forall>r \<in> set new. window_end r = window_start r + w \<and>
         sequence r = take (nat w) (drop (nat (window_start r)) seq) \<and>
         int (length (sequence r)) = w)"
proof (induction starts arbitrary: results)
  case Nil
  then show ?case by simp
next
  case (Cons i starts)
  let ?win = "py_slice seq i (i + w)"
  have i: "0 \<le> i" "i + w \<le> int (length seq)" using Cons.prems by simp_all
  have win: "?win = take (nat w) (drop (nat i) seq)" and len: "length ?win = nat w"
    using py_slice_window [OF i(1) assms i(2)] by simp_all
  then have "?win \<noteq> []" using assms by auto
  from predict_structure_ok [OF this]
  obtain pred where p: "predict_structure ?win = Inr pred" and sq: "sequence pred = ?win"
    by fastforce
  let ?e = "prediction.extend pred \<lparr>window_start = i, window_end = i + w\<rparr>"
  have e: "window_start ?e = i" "window_end ?e = i + w" "sequence ?e = ?win"
    using sq by (simp_all add: prediction.defs)
  have "\<forall>i \<in> set starts. 0 \<le> i \<and> i + w < int (length seq)" using Cons.prems by simp
  from Cons.IH [OF this, of "results @ [?e]"]
  obtain new where r: "window_loop w seq starts (results @ [?e]) = Inr ((results @ [?e]) @ new)"
    and st: "map window_start new = starts"
    and pr: "\<forall>r \<in> set new. window_end r = window_start r + w \<and>
         sequence r = take (nat w) (drop (nat (window_start r)) seq) \<and>
         int (length (sequence r)) = w" by blast
  have f1: "window_loop w seq (i # starts) results = Inr (results @ (?e # new))"
    using p r by simp
  have f2: "map window_start (?e # new) = i # starts"
    using e st by simp
  have f3: "\<forall>r \<in> set (?e # new). window_end r = window_start r + w \<and>
         sequence r = take (nat w) (drop (nat (window_start r)) seq) \<and>
         int (length (sequence r)) = w"
  proof
    fix r assume "r \<in> set (?e # new)"
    then have "r = ?e \<or> r \<in> set new" by simp
    moreover have "window_end ?e = window_start ?e + w \<and>
         sequence ?e = take (nat w) (drop (nat (window_start ?e)) seq) \<and>
         int (length (sequence ?e)) = w"
      using e win len assms by simp
    ultimately show "window_end r = window_start r + w \<and>
         sequence r = take (nat w) (drop (nat (window_start r)) seq) \<and>
         int (length (sequence r)) = w"
      using pr by blast
  qed
  show ?case
  proof (intro exI conjI)
    show "window_loop w seq (i # starts) results = Inr (results @ (?e # new))" by (rule f1)
    show "map window_start (?e # new) = i # starts" by (rule f2)
    show "\<forall>r \<in> set (?e # new). window_end r = window_start r + w \<and>
         sequence r = take (nat w) (drop (nat (window_start r)) seq) \<and>
         int (length (sequence r)) = w" by (rule f3)
  qed
qed

text \<open>
  C7. For a positive window size \<open>w\<close> and a positive stride \<open>s\<close> (the configuration the
  specification allows) the scan returns one window for each start among
  \<open>0, s, 2s, \<dots>\<close> with \<open>start + w < len(sequence)\<close>, in ascending order and nothing else
  (a multiple \<open>k * s\<close> with \<open>k \<ge> len(sequence)\<close> cannot satisfy the bound); every window is
  the \<open>w\<close> characters from its start and ends at \<open>start + w\<close>; a sequence with
  \<open>len(sequence) \<le> w\<close> gives no window.
\<close>

theorem sliding_window_starts:
  assumes "0 < w" and "0 < s"
  shows "\<exists>res. sliding_window_prediction w seq s = Inr res \<and>
     map window_start res =
       filter (\<lambda>i. i + w < int (length seq)) (map (\<lambda>k. int k * s) [0..<length seq]) \<and>
     (\<forall>r \<in> set res. window_end r = window_start r + w \<and>
        sequence r = take (nat w) (drop (nat (window_start r)) seq) \<and>
        int (length (sequence r)) = w) \<and>
     (int (length seq) \<le> w \<longrightarrow> res = [])"
proof -
  let ?n = "length seq"
  let ?starts = "filter (\<lambda>i. i + w < int ?n) (map (\<lambda>k. int k * s) [0..<?n])"
  have "int ?n * 1 \<le> int ?n * s" using assms(2) by (intro mult_left_mono) simp_all
  then have "int ?n - w \<le> int ?n * s" using assms(1) by simp
  from range_up_filter [OF assms(2) this, of 0]
  have "range_up 0 (int ?n - w) s = filter (\<lambda>i. i < int ?n - w) (map (\<lambda>k. int k * s) [0..<?n])"
    by simp
  also have "\<dots> = ?starts"
    by (intro filter_cong) auto
  finally have rng: "py_range_step 0 (int ?n - w) s = Inr ?starts"
    using assms(2) by (simp add: py_range_step_def)
  have "\<forall>i \<in> set ?starts. 0 \<le> i \<and> i + w < int ?n"
    using assms(2) by auto
  from window_loop_ok [OF assms(1) this, of "[]"]
  obtain res where r: "window_loop w seq ?starts [] = Inr res"
    and st: "map window_start res = ?starts"
    and pr: "\<forall>r \<in> set res. window_end r = window_start r + w \<and>
        sequence r = take (nat w) (drop (nat (window_start r)) seq) \<and>
        int (length (sequence r)) = w" by auto
  have run: "sliding_window_prediction w seq s = Inr res"
    using rng r by (simp add: sliding_window_prediction_def)
  have "res = []" if "int ?n \<le> w"
  proof -
    have "\<not> int k * s + w < int ?n" for k
    proof -
      have "0 \<le> int k * s" using assms(2) by simp
      with that show ?thesis by simp
    qed
    then have "?starts = []" by (simp add: filter_empty_conv)
    with st show ?thesis by simp
  qed
  with run st pr show ?thesis by blast
qed

theorem sliding_window_starts_witness:
  "\<exists>res. sliding_window_prediction 3 ''GCGCATGC'' 2 = Inr res \<and>
     map window_start res = [0, 2, 4] \<and>
     (\<forall>r \<in> set res. window_end r = window_start r + 3 \<and>
        sequence r = take 3 (drop (nat (window_start r)) ''GCGCATGC'') \<and>
        int (length (sequence r)) = 3)"
proof -
  have "filter (\<lambda>i. i + 3 < int (length ''GCGCATGC'')) (map (\<lambda>k. int k * 2) [0..<length ''GCGCATGC''])
      = [0, 2, 4]"
    by code_simp
  then show ?thesis
    using sliding_window_starts [of 3 2 "''GCGCATGC''"] by simp
qed

section \<open>The score matrix against the maximum nested pairing\<close>

text \<open>
  C2. The docstring of \<open>nussinov_algorithm\<close> states the property (\<open>dp[i][j] = max base pairs in
  seq[i:j+1]\<close>), but the loop \<open>for k in range(i, j)\<close> never pairs the last position \<open>j\<close> of a
  range. For \<open>GC\<close> the pairing \<open>[(0, 1)]\<close> is nested and allowed and has one pair, while the
  program computes \<open>matrix[0][1] = 0\<close>.
\<close>

theorem nussinov_misses_last_position:
  "nested_pairing ''GC'' 0 1 [(0, 1)] \<and> length [(0 :: nat, 1 :: nat)] = 1 \<and>
   and_then (nussinov_algorithm ''GC'' 1) (\<lambda>dp. dp_get dp 0 1) = Inr 0"
  by code_simp

end
